theory Spec2Isabelle
  imports Main "HOL-Library.Sublist"
begin

section \<open>Text: Python strings as sequences of Unicode code points\<close>

text \<open>
  A Python \<^verbatim>\<open>str\<close> is a sequence of Unicode code points, so a character is modelled by
  its code point (an integer, as \<^verbatim>\<open>ord\<close> gives it) and a string by a list of code
  points. ASCII literals are written through \<open>u\<close>; the Japanese markers of the source are
  spelled out by code point.
\<close>

type_synonym uchar = int
type_synonym ustr = "uchar list"

definition u :: "string \<Rightarrow> ustr" where
  "u s = map of_char s"

text \<open>
  The characters for which \<^verbatim>\<open>str.isspace\<close> holds; the same set is matched by \<^verbatim>\<open>\s\<close> in a
  \<^verbatim>\<open>re\<close> pattern over \<^verbatim>\<open>str\<close> and removed by \<^verbatim>\<open>str.strip()\<close>.
\<close>

definition isspace :: "uchar \<Rightarrow> bool" where
  "isspace c \<longleftrightarrow>
     (0x9 \<le> c \<and> c \<le> 0xD) \<or> (0x1C \<le> c \<and> c \<le> 0x20) \<or> c = 0x85 \<or> c = 0xA0 \<or> c = 0x1680 \<or>
     (0x2000 \<le> c \<and> c \<le> 0x200A) \<or> c = 0x2028 \<or> c = 0x2029 \<or> c = 0x202F \<or> c = 0x205F \<or>
     c = 0x3000"

text \<open>
  The zero digits of the decimal-digit blocks (general category Nd, Unicode 14.0 as shipped
  with CPython 3.11); every block is ten consecutive code points. \<^verbatim>\<open>\d\<close> in a \<^verbatim>\<open>re\<close> pattern
  over \<^verbatim>\<open>str\<close> matches exactly these characters.
\<close>

definition digit_zeros :: "uchar list" where
  "digit_zeros =
    [0x30, 0x660, 0x6F0, 0x7C0, 0x966, 0x9E6, 0xA66, 0xAE6, 0xB66, 0xBE6, 0xC66, 0xCE6, 0xD66,
     0xDE6, 0xE50, 0xED0, 0xF20, 0x1040, 0x1090, 0x17E0, 0x1810, 0x1946, 0x19D0, 0x1A80, 0x1A90,
     0x1B50, 0x1BB0, 0x1C40, 0x1C50, 0xA620, 0xA8D0, 0xA900, 0xA9D0, 0xA9F0, 0xAA50, 0xABF0,
     0xFF10, 0x104A0, 0x10D30, 0x11066, 0x110F0, 0x11136, 0x111D0, 0x112F0, 0x11450, 0x114D0,
     0x11650, 0x116C0, 0x11730, 0x118E0, 0x11950, 0x11C50, 0x11D50, 0x11DA0, 0x16A60, 0x16AC0,
     0x16B50, 0x1D7CE, 0x1D7D8, 0x1D7E2, 0x1D7EC, 0x1D7F6, 0x1E140, 0x1E2F0, 0x1E950, 0x1FBF0]"

definition isdecimal :: "uchar \<Rightarrow> bool" where
  "isdecimal c \<longleftrightarrow> list_ex (\<lambda>z. z \<le> c \<and> c < z + 10) digit_zeros"

text \<open>\<^verbatim>\<open>s.strip()\<close>: leading and trailing whitespace removed.\<close>

definition strip :: "ustr \<Rightarrow> ustr" where
  "strip s = rev (dropWhile isspace (rev (dropWhile isspace s)))"

text \<open>
  \<^verbatim>\<open>s.replace(old, new)\<close>: the occurrences of \<open>old\<close> are replaced from left to right
  without overlap; an empty \<open>old\<close> matches before every character and at the end.
\<close>

fun replace_ne :: "ustr \<Rightarrow> ustr \<Rightarrow> ustr \<Rightarrow> ustr" where
  "replace_ne old new [] = []"
| "replace_ne old new (c # cs) =
     (if prefix old (c # cs) then new @ replace_ne old new (drop (length old - 1) cs)
      else c # replace_ne old new cs)"

definition str_replace :: "ustr \<Rightarrow> ustr \<Rightarrow> ustr \<Rightarrow> ustr" where
  "str_replace old new s =
     (if old = [] then new @ concat (map (\<lambda>c. c # new) s) else replace_ne old new s)"

subsection \<open>The markers of the source\<close>

text \<open>Full-width space U+3000, and the ordinary space.\<close>

definition ZSP :: uchar where "ZSP = 0x3000"
definition SP :: uchar where "SP = 0x20"

text \<open>The full-width letter g (U+FF47), the weight marker of the PDF variant.\<close>

definition FW_G :: uchar where "FW_G = 0xFF47"

text \<open>The international-unit marker (kokusai tan'i), four characters.\<close>

definition KOKUSAI_TANNI :: ustr where
  "KOKUSAI_TANNI = [0x56FD, 0x969B, 0x5358, 0x4F4D]"

text \<open>The aggregate-total marker (goukeiryou to shite), six characters.\<close>

definition GOKEI :: ustr where
  "GOKEI = [0x5408, 0x8A08, 0x91CF, 0x3068, 0x3057, 0x3066]"

section \<open>Tokens (main.py)\<close>

text \<open>
  \<^verbatim>\<open>_split_tokens\<close>: \<^verbatim>\<open>[t for t in re.split(r"\s+", str(s).strip()) if t]\<close>, the maximal runs of
  non-whitespace characters in order. Cells are text (the extraction yields strings), so the
  \<^verbatim>\<open>None\<close>/NaN branch of the source is not taken.
\<close>

function split_tokens :: "ustr \<Rightarrow> ustr list" where
  "split_tokens s =
     (let r = dropWhile isspace s
      in if r = [] then []
         else takeWhile (\<lambda>c. \<not> isspace c) r # split_tokens (dropWhile (\<lambda>c. \<not> isspace c) r))"
  by pat_completeness auto
termination
proof (relation "measure length", goal_cases)
  case 1
  show ?case by simp
next
  case (2 s r)
  then obtain c cs where r: "dropWhile isspace s = c # cs" and c: "\<not> isspace c"
    by (metis hd_dropWhile list.exhaust_sel)
  have "length (dropWhile (\<lambda>c. \<not> isspace c) (c # cs)) \<le> length cs"
    using c by (simp add: length_dropWhile_le)
  moreover have "length (c # cs) \<le> length s"
    by (metis r length_dropWhile_le)
  ultimately show ?case using 2 r by simp
qed

declare split_tokens.simps [simp del]

text \<open>\<^verbatim>\<open>_join_tokens\<close>: \<^verbatim>\<open>" ".join([t for t in tokens if t != ""])\<close>.\<close>

fun join_sp :: "ustr list \<Rightarrow> ustr" where
  "join_sp [] = []"
| "join_sp [t] = t"
| "join_sp (t # ts) = t @ SP # join_sp ts"

definition join_tokens :: "ustr list \<Rightarrow> ustr" where
  "join_tokens tokens = join_sp (filter (\<lambda>t. t \<noteq> []) tokens)"

section \<open>Token Redistributor (main.py)\<close>

text \<open>
  \<^verbatim>\<open>_TOKEN_IS_AMOUNT = re.compile(r"^\d+(?:\.\d+)?(?:<U+FF47>|<kokusai tan'i>)$")\<close>, used with
  \<^verbatim>\<open>.match\<close>. The digits are taken greedily (the character after a shorter run is a digit,
  so backtracking cannot help); \<^verbatim>\<open>$\<close> matches at the end and before a final newline.
\<close>

definition amount_tail :: "ustr \<Rightarrow> bool" where
  "amount_tail r \<longleftrightarrow>
     r = [FW_G] \<or> r = [FW_G, 0xA] \<or> r = KOKUSAI_TANNI \<or> r = KOKUSAI_TANNI @ [0xA]"

definition TOKEN_IS_AMOUNT :: "ustr \<Rightarrow> bool" where
  "TOKEN_IS_AMOUNT tok =
     (let ds = takeWhile isdecimal tok; r = dropWhile isdecimal tok
      in ds \<noteq> [] \<and>
         ((case r of
             c # r2 \<Rightarrow> c = 0x2E \<and> takeWhile isdecimal r2 \<noteq> [] \<and> amount_tail (dropWhile isdecimal r2)
           | [] \<Rightarrow> False)
          \<or> amount_tail r))"

text \<open>
  \<^verbatim>\<open>list.pop(i)\<close> raises \<^verbatim>\<open>IndexError\<close> out of range (\<open>None\<close> here); \<^verbatim>\<open>list.insert(i, x)\<close>
  with \<open>0 \<le> i\<close> puts \<open>x\<close> before position \<open>i\<close>, at the end when \<open>i\<close> is past it.
\<close>

definition list_pop :: "nat \<Rightarrow> 'a list \<Rightarrow> ('a \<times> 'a list) option" where
  "list_pop i xs = (if i < length xs then Some (xs ! i, take i xs @ drop (Suc i) xs) else None)"

definition list_insert :: "nat \<Rightarrow> 'a \<Rightarrow> 'a list \<Rightarrow> 'a list" where
  "list_insert i x xs = take i xs @ x # drop i xs"

text \<open>\<^verbatim>\<open>hits = [i for i, tok in enumerate(c1) if _TOKEN_IS_AMOUNT.match(tok)]\<close>\<close>

definition hits :: "ustr list \<Rightarrow> nat list" where
  "hits c1 = filter (\<lambda>i. TOKEN_IS_AMOUNT (c1 ! i)) [0..<length c1]"

text \<open>
  One iteration of \<^verbatim>\<open>for i_hit in sorted(hits, reverse=True)\<close> on the pair of token lists:
  \<^verbatim>\<open>insert_pos = i_hit - 1\<close>; a negative position skips the hit.
\<close>

definition move_step :: "nat \<Rightarrow> ustr list \<times> ustr list \<Rightarrow> (ustr list \<times> ustr list) option" where
  "move_step i_hit st =
     (case st of (c1, c2) \<Rightarrow>
        if i_hit = 0 then Some (c1, c2)
        else (case list_pop i_hit c1 of
                None \<Rightarrow> None
              | Some (moved, c1') \<Rightarrow>
                  let insert_pos = i_hit - 1;
                      c2' = (if insert_pos > length c2
                             then c2 @ replicate (insert_pos - length c2) [] else c2)
                  in Some (c1', list_insert insert_pos moved c2')))"

fun move_loop :: "nat list \<Rightarrow> ustr list \<times> ustr list \<Rightarrow> (ustr list \<times> ustr list) option" where
  "move_loop [] st = Some st"
| "move_loop (i_hit # is) st =
     (case move_step i_hit st of None \<Rightarrow> None | Some st' \<Rightarrow> move_loop is st')"

text \<open>
  The body of the row loop of \<^verbatim>\<open>move_amount_token_from_col1_to_col2\<close>, from the two cells
  \<^verbatim>\<open>out.iat[r, 0]\<close>, \<^verbatim>\<open>out.iat[r, 1]\<close> to their new contents. The hits are ascending, so
  \<^verbatim>\<open>sorted(hits, reverse=True)\<close> is their reversal.
\<close>

definition move_row :: "ustr \<Rightarrow> ustr \<Rightarrow> (ustr \<times> ustr) option" where
  "move_row cell0 cell1 =
     (let c1 = split_tokens cell0; c2 = split_tokens cell1
      in case move_loop (rev (hits c1)) (c1, c2) of
           None \<Rightarrow> None
         | Some (c1', c2') \<Rightarrow> Some (join_tokens c1', join_tokens c2'))"

section \<open>Tables\<close>

text \<open>
  A \<^verbatim>\<open>pandas.DataFrame\<close> of text cells: \<open>ncols\<close> is \<^verbatim>\<open>df.shape[1]\<close>, every row has
  \<open>ncols\<close> cells (\<open>wf_df\<close>). \<^verbatim>\<open>df.empty\<close> holds when either axis has length zero.
\<close>

record dataframe =
  ncols :: nat
  rows :: "ustr list list"

definition wf_df :: "dataframe \<Rightarrow> bool" where
  "wf_df d \<longleftrightarrow> list_all (\<lambda>row. length row = ncols d) (rows d)"

definition df_empty :: "dataframe \<Rightarrow> bool" where
  "df_empty d \<longleftrightarrow> rows d = [] \<or> ncols d = 0"

section \<open>Cell Normalizer (main.py, clean\_df)\<close>

definition TAB :: uchar where "TAB = 0x9"
definition COMMA :: uchar where "COMMA = 0x2C"

text \<open>Full-width parentheses U+FF08 and U+FF09.\<close>

definition LPAREN :: uchar where "LPAREN = 0xFF08"
definition RPAREN :: uchar where "RPAREN = 0xFF09"

text \<open>The name fragment: digit 2, full-width hyphen-minus, katakana e-chi-ru.\<close>

definition ETHYL :: ustr where
  "ETHYL = [0x32, 0xFF0D, 0x30A8, 0x30C1, 0x30EB]"

text \<open>
  \<^verbatim>\<open>re.sub(r"<LPAREN>([^<RPAREN>]*)<RPAREN>", _rm_spaces_inside_paren, y)\<close>: at an opening
  parenthesis with a closing one somewhere after it, the match runs to the first closing
  one, and \<^verbatim>\<open>re.sub(r"[ \t<ZSP>]+", "", inner)\<close> deletes the blanks between them.
\<close>

function sub_paren :: "ustr \<Rightarrow> ustr" where
  "sub_paren [] = []"
| "sub_paren (c # cs) =
     (if c = LPAREN \<and> RPAREN \<in> set cs
      then LPAREN # filter (\<lambda>x. x \<noteq> SP \<and> x \<noteq> TAB \<and> x \<noteq> ZSP) (takeWhile (\<lambda>x. x \<noteq> RPAREN) cs)
             @ RPAREN # sub_paren (tl (dropWhile (\<lambda>x. x \<noteq> RPAREN) cs))
      else c # sub_paren cs)"
  by pat_completeness auto
termination
proof (relation "measure length", goal_cases)
  case (2 c cs)
  have "length (tl (dropWhile (\<lambda>x. x \<noteq> RPAREN) cs)) \<le> length cs"
    using length_dropWhile_le [of "\<lambda>x. x \<noteq> RPAREN" cs] by simp
  then show ?case by simp
qed simp_all

text \<open>
  \<^verbatim>\<open>re.sub(r"(<GOKEI>)\s+", r"\1", y)\<close>: the whitespace run after each occurrence of the
  aggregate-total marker is deleted.
\<close>

function sub_gokei_space :: "ustr \<Rightarrow> ustr" where
  "sub_gokei_space [] = []"
| "sub_gokei_space (c # cs) =
     (let r = drop (length GOKEI) (c # cs)
      in if prefix GOKEI (c # cs) \<and> r \<noteq> [] \<and> isspace (hd r)
         then GOKEI @ sub_gokei_space (dropWhile isspace r)
         else c # sub_gokei_space cs)"
  by pat_completeness auto
termination
proof (relation "measure length", goal_cases)
  case (2 c cs r)
  have "length (dropWhile isspace (drop (length GOKEI) (c # cs))) \<le> length (drop (length GOKEI) (c # cs))"
    by (rule length_dropWhile_le)
  then show ?case using 2 by (simp add: GOKEI_def)
qed simp_all

text \<open>
  \<^verbatim>\<open>re.sub(r"\s+(?=<KOKUSAI_TANNI>)", "", y)\<close>: a whitespace run directly before the
  international-unit marker is deleted (the run is taken whole: a shorter one is followed by
  whitespace, not by the marker).
\<close>

function sub_space_kokusai :: "ustr \<Rightarrow> ustr" where
  "sub_space_kokusai [] = []"
| "sub_space_kokusai (c # cs) =
     (if isspace c \<and> prefix KOKUSAI_TANNI (dropWhile isspace cs)
      then sub_space_kokusai (dropWhile isspace cs)
      else c # sub_space_kokusai cs)"
  by pat_completeness auto
termination
proof (relation "measure length", goal_cases)
  case (2 c cs)
  show ?case using length_dropWhile_le [of isspace cs] by simp
qed simp_all

text \<open>
  \<^verbatim>\<open>re.sub(r"(^|[^,])\s<ETHYL>", r"\1,<ETHYL>", y)\<close>. The flag says whether the search is at
  the beginning of the string, where \<^verbatim>\<open>^\<close> matches and is tried first; elsewhere the
  group consumes one character other than a comma. The search resumes after the match.
\<close>

fun sub_ethyl :: "bool \<Rightarrow> ustr \<Rightarrow> ustr" where
  "sub_ethyl at_start [] = []"
| "sub_ethyl at_start (c # cs) =
     (if at_start \<and> isspace c \<and> prefix ETHYL cs
      then COMMA # ETHYL @ sub_ethyl False (drop (length ETHYL) cs)
      else if c \<noteq> COMMA \<and> cs \<noteq> [] \<and> isspace (hd cs) \<and> prefix ETHYL (tl cs)
      then c # COMMA # ETHYL @ sub_ethyl False (drop (length ETHYL) (tl cs))
      else c # sub_ethyl False cs)"

text \<open>\<^verbatim>\<open>re.sub(r"[ \t]+", " ", y)\<close>\<close>

function collapse_blank :: "ustr \<Rightarrow> ustr" where
  "collapse_blank [] = []"
| "collapse_blank (c # cs) =
     (if c = SP \<or> c = TAB
      then SP # collapse_blank (dropWhile (\<lambda>x. x = SP \<or> x = TAB) cs)
      else c # collapse_blank cs)"
  by pat_completeness auto
termination
proof (relation "measure length", goal_cases)
  case (2 c cs)
  show ?case using length_dropWhile_le [of "\<lambda>x. x = SP \<or> x = TAB" cs] by simp
qed simp_all

text \<open>\<^verbatim>\<open>_strip_cell\<close> on a text cell, and \<^verbatim>\<open>clean_df\<close> (\<^verbatim>\<open>df.map(_strip_cell)\<close>).\<close>

definition strip_cell :: "ustr \<Rightarrow> ustr" where
  "strip_cell x =
     (let y = str_replace [ZSP] [SP] x;
          y = sub_paren y;
          y = sub_gokei_space y;
          y = sub_space_kokusai y;
          y = sub_ethyl True y;
          y = strip (collapse_blank y)
      in y)"

definition clean_df :: "dataframe \<Rightarrow> dataframe" where
  "clean_df d = d\<lparr>rows := map (map strip_cell) (rows d)\<rparr>"

section \<open>Row Classifier (main.py, drop\_unwanted\_rows)\<close>

text \<open>\<^verbatim>\<open>_is_int_string\<close>: \<^verbatim>\<open>bool(re.fullmatch(r"\d+", s))\<close>\<close>

definition is_int_string :: "ustr \<Rightarrow> bool" where
  "is_int_string s \<longleftrightarrow> s \<noteq> [] \<and> list_all isdecimal s"

text \<open>
  \<^verbatim>\<open>_norm_no_space\<close>: \<^verbatim>\<open>re.sub(r"\s+", "", str(s).replace("<ZSP>", " ")).strip()\<close>; deleting every
  whitespace run deletes every whitespace character.
\<close>

definition norm_no_space :: "ustr \<Rightarrow> ustr" where
  "norm_no_space s = strip (filter (\<lambda>c. \<not> isspace c) (str_replace [ZSP] [SP] s))"

text \<open>The header label of the name column (seibunmei), three characters.\<close>

definition SEIBUNMEI :: ustr where
  "SEIBUNMEI = [0x6210, 0x5206, 0x540D]"

text \<open>
  \<^verbatim>\<open>c.lower() == "nan"\<close>: the only characters that \<^verbatim>\<open>str.lower\<close> maps to \<open>n\<close> and \<open>a\<close> are
  \<open>N\<close>, \<open>n\<close>, \<open>A\<close>, \<open>a\<close>.
\<close>

definition lower_is_nan :: "ustr \<Rightarrow> bool" where
  "lower_is_nan c \<longleftrightarrow>
     (case c of
        [x, y, z] \<Rightarrow> (x = 0x4E \<or> x = 0x6E) \<and> (y = 0x41 \<or> y = 0x61) \<and> (z = 0x4E \<or> z = 0x6E)
      | _ \<Rightarrow> False)"

text \<open>
  \<^verbatim>\<open>is_digit_row\<close> of the loop body. The source compares the float
  \<^verbatim>\<open>digit_only_cnt / len(nonempty)\<close> with \<^verbatim>\<open>DIGIT_ROW_MIN_RATIO = 0.8\<close>; the quotient of two
  integers is correctly rounded, so the comparison agrees with the exact
  \<open>4 * len \<le> 5 * cnt\<close> for every row of fewer than \<open>2 ^ 50\<close> cells, which is what is written here.
\<close>

definition is_digit_row :: "ustr list \<Rightarrow> bool" where
  "is_digit_row row =
     (let cells = map strip row;
          nonempty = filter (\<lambda>c. c \<noteq> [] \<and> \<not> lower_is_nan c) cells;
          digit_only_cnt = length (filter is_int_string nonempty)
      in length nonempty > 0 \<and> 4 * length nonempty \<le> 5 * digit_only_cnt)"

definition is_seibunmei :: "ustr list \<Rightarrow> bool" where
  "is_seibunmei row =
     (let first_norm = (if length row > 0 then norm_no_space (row ! 0) else [])
      in first_norm = SEIBUNMEI)"

definition drop_unwanted_rows :: "dataframe \<Rightarrow> dataframe" where
  "drop_unwanted_rows d =
     (if df_empty d then d
      else d\<lparr>rows := filter (\<lambda>row. \<not> (is_digit_row row \<or> is_seibunmei row)) (rows d)\<rparr>)"

section \<open>Token Redistributor and Token Squasher on tables (main.py)\<close>

text \<open>
  \<^verbatim>\<open>move_amount_token_from_col1_to_col2\<close>: every row has its first two cells rewritten by
  \<open>move_row\<close>; an exception in a row aborts the call (\<open>None\<close>).
\<close>

definition move_cells :: "ustr list \<Rightarrow> ustr list option" where
  "move_cells row =
     (case move_row (row ! 0) (row ! 1) of
        None \<Rightarrow> None
      | Some (a, b) \<Rightarrow> Some (row[0 := a, 1 := b]))"

fun map_rows :: "('a \<Rightarrow> 'b option) \<Rightarrow> 'a list \<Rightarrow> 'b list option" where
  "map_rows f [] = Some []"
| "map_rows f (x # xs) =
     (case f x of
        None \<Rightarrow> None
      | Some y \<Rightarrow> (case map_rows f xs of None \<Rightarrow> None | Some ys \<Rightarrow> Some (y # ys)))"

definition move_amount_token_from_col1_to_col2 :: "dataframe \<Rightarrow> dataframe option" where
  "move_amount_token_from_col1_to_col2 d =
     (if df_empty d \<or> ncols d < 2 then Some d
      else (case map_rows move_cells (rows d) of
              None \<Rightarrow> None
            | Some rs \<Rightarrow> Some (d\<lparr>rows := rs\<rparr>)))"

text \<open>
  \<^verbatim>\<open>squash_left_when_many_tokens_and_right_one\<close>: with at least three tokens on the left
  and exactly one on the right, the left cell becomes \<^verbatim>\<open>"".join(c1)\<close>.
\<close>

definition squash_cells :: "ustr list \<Rightarrow> ustr list" where
  "squash_cells row =
     (let c1 = split_tokens (row ! 0); c2 = split_tokens (row ! 1)
      in if length c1 \<ge> 3 \<and> length c2 = 1 then row[0 := concat c1] else row)"

definition squash_left_when_many_tokens_and_right_one :: "dataframe \<Rightarrow> dataframe" where
  "squash_left_when_many_tokens_and_right_one d =
     (if df_empty d \<or> ncols d < 2 then d else d\<lparr>rows := map squash_cells (rows d)\<rparr>)"

section \<open>Record Synthesizer (main.py, df\_to\_records)\<close>

text \<open>
  The dictionaries built by \<^verbatim>\<open>df_to_records\<close> have a fixed set of keys; \<open>jouken\<close> stands for
  the key written with the two characters of the word for condition.
\<close>

record pdf_record =
  seibunn :: ustr
  jouken :: ustr
  ryou1 :: ustr
  ryou2 :: ustr
  ryou3 :: ustr
  ryou4 :: ustr
  tanni :: ustr
  bikou :: ustr
  url :: ustr

text \<open>The over-limit markers (haigou fuka, in the two spellings of the source).\<close>

definition HAIGOU_FUKA :: ustr where
  "HAIGOU_FUKA = [0x914D, 0x5408, 0x8CA0, 0x8377]"

definition HAIGOU_FUKA2 :: ustr where
  "HAIGOU_FUKA2 = [0x914D, 0x5408, 0x4E0D, 0x53EF]"

definition strip_gokei_and_flag :: "ustr \<Rightarrow> ustr \<times> bool" where
  "strip_gokei_and_flag s =
     (if sublist GOKEI s then (strip (str_replace GOKEI [] s), True) else (s, False))"

definition has_kokusai_tanni :: "ustr list \<Rightarrow> bool" where
  "has_kokusai_tanni vals = list_ex (\<lambda>v. sublist KOKUSAI_TANNI v) vals"

text \<open>
  \<^verbatim>\<open>re.sub(r"(?:\s*<FW_G>\s*|\s*<KOKUSAI_TANNI>\s*)", "", s)\<close>: at each position the
  whitespace run is taken whole, then one of the two markers must follow; the whitespace
  after the marker goes with it.
\<close>

function sub_units :: "ustr \<Rightarrow> ustr" where
  "sub_units [] = []"
| "sub_units (c # cs) =
     (let r = dropWhile isspace (c # cs)
      in if r \<noteq> [] \<and> hd r = FW_G then sub_units (dropWhile isspace (tl r))
         else if prefix KOKUSAI_TANNI r
         then sub_units (dropWhile isspace (drop (length KOKUSAI_TANNI) r))
         else c # sub_units cs)"
  by pat_completeness auto
termination
proof (relation "measure length", goal_cases)
  case (2 c cs r)
  have "length (dropWhile isspace (tl r)) \<le> length (tl r)"
    by (rule length_dropWhile_le)
  moreover have "length r \<le> length (c # cs)"
    using 2 length_dropWhile_le [of isspace "c # cs"] by simp
  ultimately show ?case using 2 by (cases r) auto
next
  case (3 c cs r)
  have "prefix KOKUSAI_TANNI r"
    using 3 by simp
  then have "0 < length r"
    unfolding KOKUSAI_TANNI_def by auto
  moreover have "length (dropWhile isspace (drop (length KOKUSAI_TANNI) r)) \<le> length r - 4"
    using length_dropWhile_le [of isspace "drop (length KOKUSAI_TANNI) r"]
    by (simp add: KOKUSAI_TANNI_def)
  moreover have "length r \<le> Suc (length cs)"
    using 3 length_dropWhile_le [of isspace "c # cs"] by simp
  ultimately show ?case by simp
qed simp_all

definition strip_units_for_ryou :: "ustr \<Rightarrow> ustr" where
  "strip_units_for_ryou s = strip (sub_units s)"

definition contains_haigou_fuka :: "ustr \<Rightarrow> bool" where
  "contains_haigou_fuka s \<longleftrightarrow> sublist HAIGOU_FUKA s \<or> sublist HAIGOU_FUKA2 s"

text \<open>\<^verbatim>\<open>xs[i] if i < len(xs) else ""\<close>\<close>

definition tok_at :: "ustr list \<Rightarrow> nat \<Rightarrow> ustr" where
  "tok_at xs i = (if i < length xs then xs ! i else [])"

text \<open>
  The branch \<^verbatim>\<open>if not use_4cols\<close> of the inner loop: the record of index \<open>i\<close> from the name
  tokens \<open>c1\<close> (after the condition was taken off) and the amount tokens \<open>c2\<close>.
\<close>

definition record_2cols :: "ustr list \<Rightarrow> ustr list \<Rightarrow> ustr \<Rightarrow> bool \<Rightarrow> ustr \<Rightarrow> nat \<Rightarrow> pdf_record" where
  "record_2cols c1 c2 cond equal_len pdf_url i =
     (let seibunn = tok_at c1 i;
          r1_raw = tok_at c2 i;
          (r1_no_gokei, had_g) = strip_gokei_and_flag r1_raw;
          r1 = strip_units_for_ryou r1_no_gokei;
          tanni = (if has_kokusai_tanni [r1_raw] then KOKUSAI_TANNI else u ''g'');
          tanni = (if contains_haigou_fuka r1 then [] else tanni)
      in \<lparr>seibunn = seibunn,
          jouken = (if \<not> equal_len then cond else []),
          ryou1 = r1, ryou2 = [], ryou3 = [], ryou4 = [],
          tanni = tanni,
          bikou = (if had_g then GOKEI else []),
          url = pdf_url\<rparr>)"

text \<open>
  The scan \<^verbatim>\<open>for cand in (v2_raw, v3_raw, v4_raw)\<close> for the first value with the
  aggregate-total marker: that value and the flag, or the empty string and \<open>False\<close>.
\<close>

definition first_gokei :: "ustr list \<Rightarrow> ustr \<times> bool" where
  "first_gokei cands =
     (case filter (\<lambda>cand. sublist GOKEI cand) cands of
        [] \<Rightarrow> ([], False)
      | cand # _ \<Rightarrow> (cand, snd (strip_gokei_and_flag cand)))"

text \<open>The \<^verbatim>\<open>else\<close> branch (four columns or more).\<close>

definition record_4cols ::
  "ustr list \<Rightarrow> ustr list \<Rightarrow> ustr list \<Rightarrow> ustr list \<Rightarrow> ustr \<Rightarrow> bool \<Rightarrow> ustr \<Rightarrow> nat \<Rightarrow> pdf_record" where
  "record_4cols c1 c2 c3 c4 cond equal_len pdf_url i =
     (let seibunn = tok_at c1 i;
          v2_raw = tok_at c2 i;
          v3_raw = tok_at c3 i;
          v4_raw = tok_at c4 i;
          (r1_raw, had_g) = first_gokei [v2_raw, v3_raw, v4_raw];
          r1 = (if r1_raw \<noteq> [] then strip_units_for_ryou (fst (strip_gokei_and_flag r1_raw)) else []);
          r2 = strip_units_for_ryou v2_raw;
          r3 = strip_units_for_ryou v3_raw;
          r4 = strip_units_for_ryou v4_raw;
          tanni = (if has_kokusai_tanni [r1_raw, v2_raw, v3_raw, v4_raw] then KOKUSAI_TANNI
                   else u ''g'');
          tanni = (if contains_haigou_fuka r1 then [] else tanni)
      in \<lparr>seibunn = seibunn,
          jouken = (if \<not> equal_len then cond else []),
          ryou1 = r1, ryou2 = r2, ryou3 = r3, ryou4 = r4,
          tanni = tanni,
          bikou = (if had_g then GOKEI else []),
          url = pdf_url\<rparr>)"

text \<open>
  The body of \<^verbatim>\<open>for r in range(len(df))\<close>: the records of one row. \<^verbatim>\<open>c1.pop(0)\<close> is guarded
  by \<^verbatim>\<open>len(c1) > 0\<close>.
\<close>

definition row_records :: "nat \<Rightarrow> ustr list \<Rightarrow> ustr \<Rightarrow> pdf_record list" where
  "row_records n row pdf_url =
     (let use_4cols = (n \<ge> 4);
          c1 = split_tokens (row ! 0);
          c2 = (if n \<ge> 2 then split_tokens (row ! 1) else []);
          c3 = (if n \<ge> 3 then split_tokens (row ! 2) else []);
          c4 = (if n \<ge> 4 then split_tokens (row ! 3) else []);
          equal_len = (length c1 = length c2);
          (cond, c1) = (if \<not> equal_len \<and> length c1 > 0 then (hd c1, tl c1) else ([], c1));
          count = length c1
      in map (\<lambda>i. if \<not> use_4cols then record_2cols c1 c2 cond equal_len pdf_url i
                   else record_4cols c1 c2 c3 c4 cond equal_len pdf_url i)
             [0..<count])"

definition df_to_records :: "dataframe \<Rightarrow> ustr \<Rightarrow> pdf_record list" where
  "df_to_records d pdf_url =
     (if df_empty d then []
      else concat (map (\<lambda>row. row_records (ncols d) row pdf_url) (rows d)))"

section \<open>Sheet rows and the orchestrator (main.py)\<close>

datatype sheet_cell = Num int | Txt ustr

text \<open>
  \<^verbatim>\<open>record_to_row\<close>: the fifteen cells A to O. The key \<^verbatim>\<open>seibunn\<close> is always present, so
  \<^verbatim>\<open>rec.get("seibunn") or rec.get("seibun") or ""\<close> is its value.
\<close>

definition record_to_row :: "pdf_record \<Rightarrow> ustr \<Rightarrow> sheet_cell list" where
  "record_to_row rec today_str =
     [Num 0, Txt today_str, Num 0, Txt (seibunn rec), Txt [], Txt (ryou1 rec), Txt (jouken rec),
      Txt (ryou2 rec), Txt (ryou3 rec), Txt (ryou4 rec), Txt (tanni rec), Txt (bikou rec),
      Txt [], Txt [], Txt (url rec)]"

text \<open>
  \<^verbatim>\<open>append_records_to_sheet\<close>: the worksheet is the list of its rows; with no record the
  function prints an information line and returns, otherwise the rows go below the last row.
\<close>

definition append_records_to_sheet ::
  "sheet_cell list list \<Rightarrow> pdf_record list \<Rightarrow> ustr \<Rightarrow> sheet_cell list list" where
  "append_records_to_sheet ws records today_str =
     (if records = [] then ws
      else ws @ map (\<lambda>r. record_to_row r today_str) records)"

text \<open>An entry of \<^verbatim>\<open>items\<close>: \<^verbatim>\<open>{"page": p, "order": order, "df": cdf}\<close>.\<close>

record item =
  page :: nat
  order :: nat
  df :: dataframe

text \<open>Step 2 of \<^verbatim>\<open>main\<close> for one table; \<open>None\<close> when an exception leaves the loop.\<close>

definition table_records :: "dataframe \<Rightarrow> ustr \<Rightarrow> pdf_record list option" where
  "table_records d pdf_url =
     (case move_amount_token_from_col1_to_col2 (drop_unwanted_rows d) of
        None \<Rightarrow> None
      | Some d' \<Rightarrow> Some (df_to_records (squash_left_when_many_tokens_and_right_one d') pdf_url))"

fun all_records :: "item list \<Rightarrow> ustr \<Rightarrow> pdf_record list option" where
  "all_records [] pdf_url = Some []"
| "all_records (it # items) pdf_url =
     (case table_records (df it) pdf_url of
        None \<Rightarrow> None
      | Some recs \<Rightarrow>
          (case all_records items pdf_url of None \<Rightarrow> None | Some rest \<Rightarrow> Some (recs @ rest)))"

text \<open>
  How a run of \<^verbatim>\<open>main\<close> ends, from the extracted \<open>items\<close> on: \<^verbatim>\<open>sys.exit(1)\<close> when there is
  no table, an uncaught exception, or completion with the records handed to the sheet and the
  worksheet after the call.
\<close>

datatype run_result =
  Exit int
| Raised
| Completed "pdf_record list" "sheet_cell list list"

definition main :: "item list \<Rightarrow> ustr \<Rightarrow> ustr \<Rightarrow> sheet_cell list list \<Rightarrow> run_result" where
  "main items pdf_url today_str ws =
     (if items = [] then Exit 1
      else (case all_records items pdf_url of
              None \<Rightarrow> Raised
            | Some recs \<Rightarrow> Completed recs (append_records_to_sheet ws recs today_str)))"

section \<open>The HTML variant (html\_to\_table.py)\<close>

text \<open>The three cells of the header row (\<^verbatim>\<open>EXPECTED_HEADER\<close>).\<close>

definition EXPECTED_HEADER :: "ustr list" where
  "EXPECTED_HEADER =
    [[0x7C98, 0x819C, 0x306B, 0x4F7F, 0x7528, 0x3055, 0x308C, 0x308B, 0x3053, 0x3068, 0x304C,
      0x306A, 0x3044, 0x5316, 0x7CA7, 0x54C1, 0x306E, 0x3046, 0x3061, 0x6D17, 0x3044, 0x6D41,
      0x3059, 0x3082, 0x306E],
     [0x7C98, 0x819C, 0x306B, 0x4F7F, 0x7528, 0x3055, 0x308C, 0x308B, 0x3053, 0x3068, 0x304C,
      0x306A, 0x3044, 0x5316, 0x7CA7, 0x54C1, 0x306E, 0x3046, 0x3061, 0x6D17, 0x3044, 0x6D41,
      0x3055, 0x306A, 0x3044, 0x3082, 0x306E],
     [0x7C98, 0x819C, 0x306B, 0x4F7F, 0x7528, 0x3055, 0x308C, 0x308B, 0x3053, 0x3068, 0x304C,
      0x3042, 0x308B, 0x5316, 0x7CA7, 0x54C1]]"

text \<open>\<^verbatim>\<open>re.sub(r"\s+", " ", s)\<close>\<close>

function collapse_ws :: "ustr \<Rightarrow> ustr" where
  "collapse_ws [] = []"
| "collapse_ws (c # cs) =
     (if isspace c then SP # collapse_ws (dropWhile isspace cs) else c # collapse_ws cs)"
  by pat_completeness auto
termination
proof (relation "measure length", goal_cases)
  case (2 c cs)
  show ?case using length_dropWhile_le [of isspace cs] by simp
qed simp_all

text \<open>\<^verbatim>\<open>_norm\<close>\<close>

definition norm :: "ustr \<Rightarrow> ustr" where
  "norm s = strip (collapse_ws (str_replace [ZSP] [SP] s))"

definition is_header_row :: "ustr list \<Rightarrow> bool" where
  "is_header_row cells \<longleftrightarrow> map norm cells = map norm EXPECTED_HEADER"

text \<open>
  The loop of \<^verbatim>\<open>build_tables_rows\<close> over the tables found in the page, each given by the
  cell texts of its rows (\<^verbatim>\<open>td_p_texts\<close>): header rows are left out.
\<close>

definition build_tables_rows :: "ustr list list list \<Rightarrow> ustr list list list" where
  "build_tables_rows tables = map (filter (\<lambda>row. \<not> is_header_row row)) tables"

text \<open>\<^verbatim>\<open>NUM_RE.fullmatch\<close> with \<^verbatim>\<open>NUM_RE = re.compile(r"^\d+(?:\.\d+)?$")\<close>\<close>

definition NUM_RE :: "ustr \<Rightarrow> bool" where
  "NUM_RE s =
     (let ds = takeWhile isdecimal s; r = dropWhile isdecimal s
      in ds \<noteq> [] \<and>
         (r = [] \<or> (case r of c # r2 \<Rightarrow> c = 0x2E \<and> r2 \<noteq> [] \<and> list_all isdecimal r2 | [] \<Rightarrow> False)))"

text \<open>The characters matched by \<^verbatim>\<open>[g<FW_G>]\<close>.\<close>

definition is_g :: "uchar \<Rightarrow> bool" where
  "is_g c \<longleftrightarrow> c = 0x67 \<or> c = FW_G"

definition strip_units_and_note :: "ustr \<Rightarrow> ustr \<times> ustr \<times> ustr" where
  "strip_units_and_note val =
     (let s = norm val;
          (s, note) = (if sublist GOKEI s then (strip (str_replace GOKEI [] s), GOKEI) else (s, []));
          (s, unit) = (if sublist KOKUSAI_TANNI s
                       then (str_replace KOKUSAI_TANNI [] s, KOKUSAI_TANNI) else (s, []));
          (s, unit) = (if list_ex is_g s
                       then (filter (\<lambda>c. \<not> is_g c) s, if unit = [] then u ''g'' else unit)
                       else (s, unit));
          s = norm s;
          unit = (if NUM_RE s \<and> unit = [] then u ''g'' else unit)
      in (s, unit, note))"

definition strip_units_and_note_value_only :: "ustr \<Rightarrow> ustr" where
  "strip_units_and_note_value_only val =
     (let s = norm val;
          s = str_replace KOKUSAI_TANNI [] (str_replace GOKEI [] s);
          s = filter (\<lambda>c. \<not> is_g c) s
      in norm s)"

text \<open>
  The dictionary of \<^verbatim>\<open>row_to_record\<close>: name (seibunmei), the four maximum amounts
  (saidai haigouryou 1 to 4), unit (tan'i) and note (bikou).
\<close>

record html_record =
  h_seibunmei :: ustr
  h_saidai1 :: ustr
  h_saidai2 :: ustr
  h_saidai3 :: ustr
  h_saidai4 :: ustr
  h_tani :: ustr
  h_bikou :: ustr

definition has_meaningful_values :: "html_record \<Rightarrow> bool" where
  "has_meaningful_values rec =
     list_ex (\<lambda>v. strip v \<noteq> [])
       [h_saidai1 rec, h_saidai2 rec, h_saidai3 rec, h_saidai4 rec, h_tani rec, h_bikou rec]"

definition row_to_record :: "ustr list \<Rightarrow> html_record" where
  "row_to_record row =
     (let rec = \<lparr>h_seibunmei = [], h_saidai1 = [], h_saidai2 = [], h_saidai3 = [], h_saidai4 = [],
                 h_tani = [], h_bikou = []\<rparr>
      in if row = [] then rec
         else let rec = rec\<lparr>h_seibunmei := norm (row ! 0)\<rparr>
              in if length row = 1 then rec
                 else if length row = 2 then
                   (case strip_units_and_note (row ! 1) of
                      (clean, unit, note) \<Rightarrow> rec\<lparr>h_saidai1 := clean, h_tani := unit, h_bikou := note\<rparr>)
                 else if length row = 4 then
                   (case strip_units_and_note (row ! 1) of
                      (clean2, unit, note) \<Rightarrow>
                        rec\<lparr>h_saidai2 := clean2, h_tani := unit, h_bikou := note,
                            h_saidai3 := strip_units_and_note_value_only (row ! 2),
                            h_saidai4 := strip_units_and_note_value_only (row ! 3)\<rparr>)
                 else
                   (case strip_units_and_note (row ! 1) of
                      (clean, unit, note) \<Rightarrow> rec\<lparr>h_saidai1 := clean, h_tani := unit, h_bikou := note\<rparr>))"

text \<open>
  Step 2 of \<^verbatim>\<open>main\<close> in html\_to\_table.py: the records handed to
  \<^verbatim>\<open>append_records_to_sheet\<close>, from the rows of \<^verbatim>\<open>build_tables_rows\<close>.
\<close>

definition html_keep :: "html_record \<Rightarrow> bool" where
  "html_keep rec \<longleftrightarrow> h_seibunmei rec \<noteq> [] \<and> has_meaningful_values rec"

definition html_records :: "ustr list list list \<Rightarrow> html_record list" where
  "html_records tables_rows = filter html_keep (map row_to_record (concat tables_rows))"

section \<open>Properties of the text primitives\<close>

lemma not_decimal_markers:
  "\<not> isdecimal 0x2E" "\<not> isdecimal FW_G" "\<not> isdecimal 0x56FD"
  by (simp_all add: isdecimal_def digit_zeros_def FW_G_def)

lemma isspace_newline: "isspace 0xA"
  by (simp add: isspace_def)

lemma split_tokens_Nil [simp]: "split_tokens [] = []"
  by (simp add: split_tokens.simps)

text \<open>A token is a non-empty string without whitespace.\<close>

lemma split_tokens_token:
  "t \<in> set (split_tokens s) \<Longrightarrow> t \<noteq> [] \<and> \<not> list_ex isspace t"
proof (induction s rule: split_tokens.induct)
  case (1 s)
  let ?r = "dropWhile isspace s"
  show ?case
  proof (cases "?r = []")
    case True
    with 1(2) show ?thesis by (simp add: split_tokens.simps [of s])
  next
    case False
    then have hd: "\<not> isspace (hd ?r)" by (metis hd_dropWhile)
    from 1(2) False
    have "t = takeWhile (\<lambda>c. \<not> isspace c) ?r \<or>
          t \<in> set (split_tokens (dropWhile (\<lambda>c. \<not> isspace c) ?r))"
      by (auto simp: split_tokens.simps [of s] Let_def split: if_splits)
    then show ?thesis
    proof
      assume t: "t = takeWhile (\<lambda>c. \<not> isspace c) ?r"
      have "t \<noteq> []" using False hd t by (cases ?r) auto
      moreover have "\<not> list_ex isspace t"
        using t by (auto simp: list_ex_iff dest: set_takeWhileD)
      ultimately show ?thesis by simp
    next
      assume "t \<in> set (split_tokens (dropWhile (\<lambda>c. \<not> isspace c) ?r))"
      then show ?thesis using 1(1) [OF refl False] by simp
    qed
  qed
qed

text \<open>
  The matcher \<open>TOKEN_IS_AMOUNT\<close> against the shape the pattern denotes: digits, an optional
  fraction, one of the two markers. (A token holds no newline, so \<^verbatim>\<open>$\<close> is the end.)
\<close>

lemma TOKEN_IS_AMOUNT_shape:
  assumes "\<not> list_ex isspace t"
  shows "TOKEN_IS_AMOUNT t \<longleftrightarrow>
    (\<exists>ds fr mk. t = ds @ fr @ mk \<and> ds \<noteq> [] \<and> list_all isdecimal ds \<and>
       (fr = [] \<or> (\<exists>fs. fr = 0x2E # fs \<and> fs \<noteq> [] \<and> list_all isdecimal fs)) \<and>
       (mk = [FW_G] \<or> mk = KOKUSAI_TANNI))"
    (is "?L \<longleftrightarrow> ?R")
proof
  assume L: ?L
  define ds where "ds = takeWhile isdecimal t"
  define r where "r = dropWhile isdecimal t"
  have t: "t = ds @ r" by (simp add: ds_def r_def)
  have ds: "ds \<noteq> []" "list_all isdecimal ds"
    using L by (auto simp: TOKEN_IS_AMOUNT_def Let_def ds_def list_all_iff dest: set_takeWhileD)
  have nl: "0xA \<notin> set t" using assms isspace_newline by (auto simp: list_ex_iff)
  from L have "(case r of
                  c # r2 \<Rightarrow> c = 0x2E \<and> takeWhile isdecimal r2 \<noteq> [] \<and>
                            amount_tail (dropWhile isdecimal r2)
                | [] \<Rightarrow> False) \<or> amount_tail r"
    by (simp add: TOKEN_IS_AMOUNT_def Let_def r_def)
  then consider
      (frac) c r2 where "r = c # r2" "c = 0x2E" "takeWhile isdecimal r2 \<noteq> []"
        "amount_tail (dropWhile isdecimal r2)"
    | (plain) "amount_tail r"
    by (cases r) auto
  then show ?R
  proof cases
    case plain
    then have "r = [FW_G] \<or> r = KOKUSAI_TANNI"
      using nl t by (auto simp: amount_tail_def)
    moreover have "t = ds @ [] @ r" using t by simp
    ultimately show ?thesis using ds by blast
  next
    case frac
    define fs where "fs = takeWhile isdecimal r2"
    define mk where "mk = dropWhile isdecimal r2"
    have r2: "r2 = fs @ mk" by (simp add: fs_def mk_def)
    have "amount_tail mk" using frac(4) by (simp add: mk_def)
    moreover have "0xA \<notin> set mk" using nl t frac(1) r2 by simp
    ultimately have "mk = [FW_G] \<or> mk = KOKUSAI_TANNI"
      by (auto simp: amount_tail_def)
    moreover have "fs \<noteq> []" "list_all isdecimal fs"
      using frac by (auto simp: fs_def list_all_iff dest: set_takeWhileD)
    moreover have "t = ds @ (0x2E # fs) @ mk" using t frac r2 by simp
    ultimately show ?thesis using ds by blast
  qed
next
  assume ?R
  then obtain ds fr mk where t: "t = ds @ fr @ mk" and ds: "ds \<noteq> []" "list_all isdecimal ds"
    and fr: "fr = [] \<or> (\<exists>fs. fr = 0x2E # fs \<and> fs \<noteq> [] \<and> list_all isdecimal fs)"
    and mk: "mk = [FW_G] \<or> mk = KOKUSAI_TANNI" by blast
  have mk_hd: "takeWhile isdecimal mk = []" "dropWhile isdecimal mk = mk"
    using mk not_decimal_markers by (auto simp: KOKUSAI_TANNI_def)
  have tail: "amount_tail mk" using mk by (auto simp: amount_tail_def)
  have tw: "takeWhile isdecimal (ds @ fr @ mk) = ds \<and>
            dropWhile isdecimal (ds @ fr @ mk) = fr @ mk"
  proof -
    have "takeWhile isdecimal (fr @ mk) = [] \<and> dropWhile isdecimal (fr @ mk) = fr @ mk"
      using fr mk_hd not_decimal_markers by auto
    then show ?thesis using ds
      by (simp add: takeWhile_append2 dropWhile_append2 list_all_iff)
  qed
  from fr show ?L
  proof
    assume "fr = []"
    then show ?thesis using tw t ds tail by (simp add: TOKEN_IS_AMOUNT_def Let_def)
  next
    assume "\<exists>fs. fr = 0x2E # fs \<and> fs \<noteq> [] \<and> list_all isdecimal fs"
    then obtain fs where fs: "fr = 0x2E # fs" "fs \<noteq> []" "list_all isdecimal fs" by blast
    have "takeWhile isdecimal (fs @ mk) = fs \<and> dropWhile isdecimal (fs @ mk) = mk"
      using fs mk_hd by (simp add: takeWhile_append2 dropWhile_append2 list_all_iff)
    then show ?thesis using tw t ds tail fs by (simp add: TOKEN_IS_AMOUNT_def Let_def)
  qed
qed

section \<open>Token Redistributor: the amount shape and the worked example\<close>

text \<open>
  C2, as stated, at its own example: the token written with the ASCII letter g is not an
  amount token, and the row is left as it is.
\<close>

theorem C2_ascii_g_not_moved:
  "\<not> TOKEN_IS_AMOUNT (u ''12g'') \<and>
   move_row (u ''Foo 12g Bar'') (u ''X'') = Some (u ''Foo 12g Bar'', u ''X'')"
  by code_simp

text \<open>
  C2 (amended): every column-0 token is recognised as an amount token exactly when it is one
  or more digits, an optional decimal fraction, then the weight marker or the
  international-unit marker, where the weight marker is the full-width letter U+FF47 (not the
  ASCII letter g). On the row with column-0 tokens Foo, 12<U+FF47>, Bar and column-1 token X,
  the amount token at index 1 leaves column 0 and enters column 1 at index 0.
\<close>

theorem C2_amount_token_full_width:
  "(\<forall>t \<in> set (split_tokens cell0).
      TOKEN_IS_AMOUNT t \<longleftrightarrow>
        (\<exists>ds fr mk. t = ds @ fr @ mk \<and> ds \<noteq> [] \<and> list_all isdecimal ds \<and>
           (fr = [] \<or> (\<exists>fs. fr = 0x2E # fs \<and> fs \<noteq> [] \<and> list_all isdecimal fs)) \<and>
           (mk = [FW_G] \<or> mk = KOKUSAI_TANNI))) \<and>
   split_tokens (u ''Foo 12'' @ [FW_G] @ u '' Bar'') = [u ''Foo'', u ''12'' @ [FW_G], u ''Bar''] \<and>
   split_tokens (u ''X'') = [u ''X''] \<and>
   (\<exists>a b. move_row (u ''Foo 12'' @ [FW_G] @ u '' Bar'') (u ''X'') = Some (a, b) \<and>
          split_tokens a = [u ''Foo'', u ''Bar''] \<and>
          split_tokens b = [u ''12'' @ [FW_G], u ''X''])"
proof (intro conjI ballI)
  fix t assume "t \<in> set (split_tokens cell0)"
  then have "\<not> list_ex isspace t" by (simp add: split_tokens_token)
  then show "TOKEN_IS_AMOUNT t \<longleftrightarrow>
        (\<exists>ds fr mk. t = ds @ fr @ mk \<and> ds \<noteq> [] \<and> list_all isdecimal ds \<and>
           (fr = [] \<or> (\<exists>fs. fr = 0x2E # fs \<and> fs \<noteq> [] \<and> list_all isdecimal fs)) \<and>
           (mk = [FW_G] \<or> mk = KOKUSAI_TANNI))"
    by (rule TOKEN_IS_AMOUNT_shape)
next
  show "split_tokens (u ''Foo 12'' @ [FW_G] @ u '' Bar'') = [u ''Foo'', u ''12'' @ [FW_G], u ''Bar'']"
    by code_simp
next
  show "split_tokens (u ''X'') = [u ''X'']"
    by code_simp
next
  have "move_row (u ''Foo 12'' @ [FW_G] @ u '' Bar'') (u ''X'') =
        Some (u ''Foo Bar'', u ''12'' @ [FW_G] @ u '' X'')"
    by code_simp
  moreover have "split_tokens (u ''Foo Bar'') = [u ''Foo'', u ''Bar'']"
    by code_simp
  moreover have "split_tokens (u ''12'' @ [FW_G] @ u '' X'') = [u ''12'' @ [FW_G], u ''X'']"
    by code_simp
  ultimately show "\<exists>a b. move_row (u ''Foo 12'' @ [FW_G] @ u '' Bar'') (u ''X'') = Some (a, b) \<and>
          split_tokens a = [u ''Foo'', u ''Bar''] \<and>
          split_tokens b = [u ''12'' @ [FW_G], u ''X'']"
    by blast
qed

theorem C2_amount_token_full_width_witness:
  "u ''12.5'' @ [FW_G] \<in> set (split_tokens (u ''Foo 12.5'' @ [FW_G])) \<and>
   TOKEN_IS_AMOUNT (u ''12.5'' @ [FW_G]) \<and>
   (\<exists>ds fr mk. u ''12.5'' @ [FW_G] = ds @ fr @ mk \<and> ds \<noteq> [] \<and> list_all isdecimal ds \<and>
      (fr = [] \<or> (\<exists>fs. fr = 0x2E # fs \<and> fs \<noteq> [] \<and> list_all isdecimal fs)) \<and>
      (mk = [FW_G] \<or> mk = KOKUSAI_TANNI))"
proof -
  have m: "u ''12.5'' @ [FW_G] \<in> set (split_tokens (u ''Foo 12.5'' @ [FW_G]))"
    by code_simp
  have a: "TOKEN_IS_AMOUNT (u ''12.5'' @ [FW_G])"
    by code_simp
  from C2_amount_token_full_width [of "u ''Foo 12.5'' @ [FW_G]"] m a
  show ?thesis by blast
qed

section \<open>Record Synthesizer: the two-column example\<close>

text \<open>
  C5, as stated, at its own row: with the ASCII letter g in the amount cell the two records
  keep it in their first amount.
\<close>

theorem C5_ascii_g_kept:
  "map ryou1 (df_to_records
      \<lparr>ncols = 2, rows = [[u ''Alpha Beta'', u ''5g '' @ GOKEI @ u ''10g'']]\<rparr> (u ''U'')) =
   [u ''5g'', u ''10g'']"
  by code_simp

text \<open>
  C5 (amended): for the row of a 2-column table whose name cell is "Alpha Beta" and whose
  amount cell is 5<U+FF47>, a space, the aggregate-total marker and 10<U+FF47> (the weight
  marker being the full-width letter), the Record Synthesizer produces exactly two records
  in order: Alpha with first amount 5, unit g, empty note; Beta with first amount 10, unit g,
  note aggregate-total. Both have an empty condition.
\<close>

theorem C5_two_column_example:
  "df_to_records
     \<lparr>ncols = 2, rows = [[u ''Alpha Beta'', u ''5'' @ [FW_G, SP] @ GOKEI @ u ''10'' @ [FW_G]]]\<rparr>
     pdf_url =
   [\<lparr>seibunn = u ''Alpha'', jouken = [], ryou1 = u ''5'', ryou2 = [], ryou3 = [], ryou4 = [],
      tanni = u ''g'', bikou = [], url = pdf_url\<rparr>,
    \<lparr>seibunn = u ''Beta'', jouken = [], ryou1 = u ''10'', ryou2 = [], ryou3 = [], ryou4 = [],
      tanni = u ''g'', bikou = GOKEI, url = pdf_url\<rparr>]"
  by code_simp

theorem C5_two_column_example_witness:
  "map seibunn (df_to_records
     \<lparr>ncols = 2, rows = [[u ''Alpha Beta'', u ''5'' @ [FW_G, SP] @ GOKEI @ u ''10'' @ [FW_G]]]\<rparr>
     (u ''https://example.org/a.pdf'')) = [u ''Alpha'', u ''Beta'']"
  using C5_two_column_example [of "u ''https://example.org/a.pdf''"] by simp

section \<open>Cell Normalizer: a second application can change the text\<close>

text \<open>
  C6 at the cell "a", space, the name fragment, space, the name fragment: the first
  application puts a comma before the first fragment only (the match has consumed the
  character that the second one needs before its space); the second application puts the
  other comma.
\<close>

theorem C6_strip_cell_twice:
  "strip_cell (u ''a '' @ ETHYL @ [SP] @ ETHYL) = u ''a,'' @ ETHYL @ [SP] @ ETHYL \<and>
   strip_cell (strip_cell (u ''a '' @ ETHYL @ [SP] @ ETHYL)) = u ''a,'' @ ETHYL @ u '','' @ ETHYL"
  by code_simp

section \<open>Record Synthesizer: units, names and totality\<close>

lemma strip_Nil [simp]: "strip [] = []"
  by (simp add: strip_def)

lemma strip_units_for_ryou_Nil [simp]: "strip_units_for_ryou [] = []"
  by (simp add: strip_units_for_ryou_def)

lemma strip_gokei_and_flag_Nil [simp]: "strip_gokei_and_flag [] = ([], False)"
  by (simp add: strip_gokei_and_flag_def GOKEI_def)

lemma contains_haigou_fuka_Nil [simp]: "\<not> contains_haigou_fuka []"
  by (simp add: contains_haigou_fuka_def HAIGOU_FUKA_def HAIGOU_FUKA2_def)

lemma unit_values_nonempty [simp]: "KOKUSAI_TANNI \<noteq> []" "u ''g'' \<noteq> []" "GOKEI \<noteq> []"
  by (simp_all add: KOKUSAI_TANNI_def u_def GOKEI_def)

lemma record_2cols_tanni:
  "tanni (record_2cols c1 c2 cond equal_len pdf_url i) =
     (if contains_haigou_fuka (ryou1 (record_2cols c1 c2 cond equal_len pdf_url i)) then []
      else if sublist KOKUSAI_TANNI (tok_at c2 i) then KOKUSAI_TANNI else u ''g'')"
  by (simp add: record_2cols_def Let_def has_kokusai_tanni_def split: prod.splits)

lemma record_2cols_out_of_range:
  "length c2 \<le> i \<Longrightarrow> tanni (record_2cols c1 c2 cond equal_len pdf_url i) = u ''g'' \<and> ryou1 (record_2cols c1 c2 cond equal_len pdf_url i) = []"
  by (simp add: record_2cols_def Let_def has_kokusai_tanni_def tok_at_def KOKUSAI_TANNI_def)

text \<open>The records of a row, by branch.\<close>

lemma row_records_cases:
  assumes "rec \<in> set (row_records n row pdf_url)"
  shows "\<exists>c1 c2 c3 c4 cond equal_len i. i < length c1 \<and> set c1 \<subseteq> set (split_tokens (row ! 0)) \<and>
           (n \<ge> 2 \<longrightarrow> c2 = split_tokens (row ! 1)) \<and> (n < 2 \<longrightarrow> c2 = []) \<and>
           (if n < 4 then rec = record_2cols c1 c2 cond equal_len pdf_url i
            else rec = record_4cols c1 c2 c3 c4 cond equal_len pdf_url i)"
proof -
  define t1 where "t1 = split_tokens (row ! 0)"
  define c2 where "c2 = (if n \<ge> 2 then split_tokens (row ! 1) else [])"
  define c3 where "c3 = (if n \<ge> 3 then split_tokens (row ! 2) else [])"
  define c4 where "c4 = (if n \<ge> 4 then split_tokens (row ! 3) else [])"
  define eq where "eq = (length t1 = length c2)"
  define cond where "cond = (if \<not> eq \<and> length t1 > 0 then hd t1 else [])"
  define c1 where "c1 = (if \<not> eq \<and> length t1 > 0 then tl t1 else t1)"
  have sub: "set c1 \<subseteq> set t1"
    by (auto simp: c1_def dest: list.set_sel(2))
  have rr: "row_records n row pdf_url =
      map (\<lambda>i. if \<not> n \<ge> 4 then record_2cols c1 c2 cond eq pdf_url i
                 else record_4cols c1 c2 c3 c4 cond eq pdf_url i) [0..<length c1]"
    by (simp add: row_records_def Let_def t1_def c2_def c3_def c4_def eq_def cond_def c1_def)
  from assms obtain i where i: "i < length c1"
    and rec: "rec = (if \<not> n \<ge> 4 then record_2cols c1 c2 cond eq pdf_url i
                 else record_4cols c1 c2 c3 c4 cond eq pdf_url i)"
    unfolding rr by (auto split: if_splits)
  show ?thesis
    apply (rule exI [of _ c1], rule exI [of _ c2], rule exI [of _ c3], rule exI [of _ c4],
           rule exI [of _ cond], rule exI [of _ eq], rule exI [of _ i])
    using i sub rec by (auto simp: t1_def c2_def)
qed

lemma df_to_records_cases:
  assumes "rec \<in> set (df_to_records d pdf_url)"
  shows "\<exists>row \<in> set (rows d). rec \<in> set (row_records (ncols d) row pdf_url)"
  using assms by (auto simp: df_to_records_def split: if_splits)


lemma record_4cols_tanni:
  "contains_haigou_fuka (ryou1 (record_4cols c1 c2 c3 c4 cond equal_len pdf_url i)) \<or>
   tanni (record_4cols c1 c2 c3 c4 cond equal_len pdf_url i) = KOKUSAI_TANNI \<or>
   tanni (record_4cols c1 c2 c3 c4 cond equal_len pdf_url i) = u ''g''"
  by (simp add: record_4cols_def Let_def split: prod.splits)

lemma record_seibunn:
  "seibunn (record_2cols c1 c2 cond equal_len pdf_url i) = tok_at c1 i"
  "seibunn (record_4cols c1 c2 c3 c4 cond equal_len pdf_url i) = tok_at c1 i"
  by (simp_all add: record_2cols_def record_4cols_def Let_def split: prod.splits)

lemma contains_haigou_fuka_nonempty: "contains_haigou_fuka s \<Longrightarrow> s \<noteq> []"
  by auto

text \<open>Every synthesized record names a substance and carries a unit or a first amount.\<close>

lemma df_to_records_retained:
  assumes "rec \<in> set (df_to_records d pdf_url)"
  shows "seibunn rec \<noteq> [] \<and> (tanni rec \<noteq> [] \<or> ryou1 rec \<noteq> [])"
proof -
  from df_to_records_cases [OF assms] obtain row where
    "rec \<in> set (row_records (ncols d) row pdf_url)" by blast
  from row_records_cases [OF this] obtain c1 c2 c3 c4 cond equal_len i where
    i: "i < length c1" and sub: "set c1 \<subseteq> set (split_tokens (row ! 0))" and
    rec: "if ncols d < 4 then rec = record_2cols c1 c2 cond equal_len pdf_url i
          else rec = record_4cols c1 c2 c3 c4 cond equal_len pdf_url i"
    by blast
  have "c1 ! i \<in> set (split_tokens (row ! 0))"
    using i sub by auto
  then have name: "tok_at c1 i \<noteq> []"
    using i split_tokens_token by (simp add: tok_at_def)
  show ?thesis
  proof (cases "ncols d < 4")
    case True
    then have r: "rec = record_2cols c1 c2 cond equal_len pdf_url i" using rec by simp
    show ?thesis
      using name record_2cols_tanni [of c1 c2 cond equal_len pdf_url i]
        contains_haigou_fuka_nonempty [of "ryou1 rec"]
      unfolding r by (auto simp: record_seibunn split: if_splits)
  next
    case False
    then have r: "rec = record_4cols c1 c2 c3 c4 cond equal_len pdf_url i" using rec by simp
    show ?thesis
      using name record_4cols_tanni [of c1 c2 c3 c4 cond equal_len pdf_url i]
        contains_haigou_fuka_nonempty [of "ryou1 rec"]
      unfolding r by (auto simp: record_seibunn)
  qed
qed

text \<open>
  The loop of the Token Redistributor never raises: the hits are taken from the highest
  index down, so each one is still inside the shortened list.
\<close>

lemma move_loop_total:
  "sorted_wrt (>) js \<Longrightarrow> list_all (\<lambda>j. j < length c1) js \<Longrightarrow> \<exists>st. move_loop js (c1, c2) = Some st"
proof (induction js arbitrary: c1 c2)
  case Nil
  show ?case by simp
next
  case (Cons j js)
  show ?case
  proof (cases "j = 0")
    case True
    then have "js = []" using Cons.prems(1) by (cases js) auto
    then show ?thesis using True by (simp add: move_step_def)
  next
    case False
    have j: "j < length c1" using Cons.prems(2) by simp
    define c1' where "c1' = take j c1 @ drop (Suc j) c1"
    have len: "length c1' = length c1 - 1" using j by (simp add: c1'_def)
    have "list_all (\<lambda>k. k < length c1') js"
      using Cons.prems(1) j len by (auto simp: list_all_iff)
    moreover have "sorted_wrt (>) js" using Cons.prems(1) by simp
    ultimately have "\<And>c2'. \<exists>st. move_loop js (c1', c2') = Some st"
      using Cons.IH by blast
    then show ?thesis using False j
      by (simp add: move_step_def list_pop_def Let_def c1'_def)
  qed
qed

lemma hits_descending:
  "sorted_wrt (>) (rev (hits c1)) \<and> list_all (\<lambda>j. j < length c1) (rev (hits c1))"
proof -
  have "sorted_wrt (<) (hits c1)"
    unfolding hits_def by (rule sorted_wrt_filter) simp
  then show ?thesis
    by (auto simp: sorted_wrt_rev hits_def list_all_iff)
qed

lemma move_row_total: "\<exists>a b. move_row cell0 cell1 = Some (a, b)"
proof -
  obtain st where "move_loop (rev (hits (split_tokens cell0))) (split_tokens cell0, split_tokens cell1) = Some st"
    using move_loop_total hits_descending by blast
  then show ?thesis by (cases st) (simp add: move_row_def Let_def)
qed

lemma map_rows_total: "(\<And>x. \<exists>y. f x = Some y) \<Longrightarrow> \<exists>ys. map_rows f xs = Some ys \<and> length ys = length xs"
proof (induction xs)
  case Nil
  show ?case by simp
next
  case (Cons x xs)
  then obtain y ys where "f x = Some y" "map_rows f xs = Some ys" "length ys = length xs" by blast
  then show ?case by simp
qed

lemma move_table_total: "\<exists>d'. move_amount_token_from_col1_to_col2 d = Some d'"
proof -
  have "\<exists>y. move_cells row = Some y" for row
  proof -
    obtain a b where "move_row (row ! 0) (row ! 1) = Some (a, b)"
      using move_row_total by blast
    then show ?thesis by (simp add: move_cells_def)
  qed
  from map_rows_total [of move_cells "rows d", OF this]
  show ?thesis by (auto simp: move_amount_token_from_col1_to_col2_def)
qed

lemma table_records_total: "\<exists>recs. table_records d pdf_url = Some recs"
  using move_table_total [of "drop_unwanted_rows d"] by (auto simp: table_records_def)

lemma table_records_retained:
  "table_records d pdf_url = Some recs \<Longrightarrow> rec \<in> set recs \<Longrightarrow>
     seibunn rec \<noteq> [] \<and> (tanni rec \<noteq> [] \<or> ryou1 rec \<noteq> [])"
  using df_to_records_retained by (auto simp: table_records_def split: option.splits)

lemma all_records_total: "\<exists>recs. all_records items pdf_url = Some recs"
proof (induction items)
  case Nil
  show ?case by simp
next
  case (Cons it items)
  then show ?case using table_records_total [of "df it" pdf_url] by auto
qed

lemma all_records_retained:
  "all_records items pdf_url = Some recs \<Longrightarrow> rec \<in> set recs \<Longrightarrow>
     seibunn rec \<noteq> [] \<and> (tanni rec \<noteq> [] \<or> ryou1 rec \<noteq> [])"
proof (induction items arbitrary: recs)
  case Nil
  then show ?case by simp
next
  case (Cons it items)
  then show ?case
    using table_records_retained by (fastforce split: option.splits)
qed


lemma main_completed:
  "items \<noteq> [] \<Longrightarrow>
   \<exists>recs. all_records items pdf_url = Some recs \<and>
     main items pdf_url today_str ws = Completed recs (append_records_to_sheet ws recs today_str)"
  using all_records_total [of items pdf_url] by (auto simp: main_def)

text \<open>
  C8: in the branch for fewer than four columns, the unit of a record is empty when its
  stripped first amount holds an over-limit marker, otherwise the international-unit marker
  when the raw amount token holds it, otherwise g; a record whose index is outside the
  amount tokens (in particular when the amount cell is empty) gets the unit g; and every
  record of a table with fewer than four columns is built by this branch, so its unit is
  non-empty unless its first amount holds an over-limit marker.
\<close>

theorem C8_two_column_unit:
  "tanni (record_2cols c1 c2 cond equal_len pdf_url i) =
     (if contains_haigou_fuka (ryou1 (record_2cols c1 c2 cond equal_len pdf_url i)) then []
      else if sublist KOKUSAI_TANNI (tok_at c2 i) then KOKUSAI_TANNI else u ''g'') \<and>
   (length c2 \<le> i \<longrightarrow> tanni (record_2cols c1 c2 cond equal_len pdf_url i) = u ''g'') \<and>
   (ncols d < 4 \<longrightarrow>
      (\<forall>rec \<in> set (df_to_records d pdf_url).
         (\<exists>c1 c2 cond equal_len i. rec = record_2cols c1 c2 cond equal_len pdf_url i) \<and>
         (\<not> contains_haigou_fuka (ryou1 rec) \<longrightarrow> tanni rec \<noteq> [])))"
proof (intro conjI impI ballI)
  show "tanni (record_2cols c1 c2 cond equal_len pdf_url i) =
     (if contains_haigou_fuka (ryou1 (record_2cols c1 c2 cond equal_len pdf_url i)) then []
      else if sublist KOKUSAI_TANNI (tok_at c2 i) then KOKUSAI_TANNI else u ''g'')"
    by (rule record_2cols_tanni)
next
  assume "length c2 \<le> i"
  then show "tanni (record_2cols c1 c2 cond equal_len pdf_url i) = u ''g''"
    by (simp add: record_2cols_out_of_range)
next
  fix rec
  assume n: "ncols d < 4" and "rec \<in> set (df_to_records d pdf_url)"
  then obtain row where "rec \<in> set (row_records (ncols d) row pdf_url)"
    using df_to_records_cases by blast
  from row_records_cases [OF this] n
  obtain c1 c2 cond equal_len i where r: "rec = record_2cols c1 c2 cond equal_len pdf_url i"
    by auto
  then show "\<exists>c1 c2 cond equal_len i. rec = record_2cols c1 c2 cond equal_len pdf_url i"
    by blast
  assume "\<not> contains_haigou_fuka (ryou1 rec)"
  then show "tanni rec \<noteq> []"
    unfolding r using record_2cols_tanni [of c1 c2 cond equal_len pdf_url i] by simp
qed

theorem C8_two_column_unit_witness:
  "length [u ''5'' @ [FW_G]] \<le> 1 \<and>
   tanni (record_2cols [u ''B'', u ''C''] [u ''5'' @ [FW_G]] (u ''A'') False (u ''U'') 1) = u ''g'' \<and>
   ncols \<lparr>ncols = 2, rows = [[u ''A B C'', u ''5'' @ [FW_G]]]\<rparr> < 4 \<and>
   \<lparr>seibunn = u ''C'', jouken = u ''A'', ryou1 = [], ryou2 = [], ryou3 = [], ryou4 = [],
     tanni = u ''g'', bikou = [], url = u ''U''\<rparr>
     \<in> set (df_to_records \<lparr>ncols = 2, rows = [[u ''A B C'', u ''5'' @ [FW_G]]]\<rparr> (u ''U'')) \<and>
   \<not> contains_haigou_fuka [] \<and>
   tanni \<lparr>seibunn = u ''C'', jouken = u ''A'', ryou1 = [], ryou2 = [], ryou3 = [], ryou4 = [],
     tanni = u ''g'', bikou = [], url = u ''U''\<rparr> \<noteq> []"
proof -
  have m: "\<lparr>seibunn = u ''C'', jouken = u ''A'', ryou1 = [], ryou2 = [], ryou3 = [], ryou4 = [],
     tanni = u ''g'', bikou = [], url = u ''U''\<rparr>
     \<in> set (df_to_records \<lparr>ncols = 2, rows = [[u ''A B C'', u ''5'' @ [FW_G]]]\<rparr> (u ''U''))"
    by code_simp
  show ?thesis
    using m C8_two_column_unit [of "[u ''B'', u ''C'']" "[u ''5'' @ [FW_G]]" "u ''A''" False "u ''U''" 1
        "\<lparr>ncols = 2, rows = [[u ''A B C'', u ''5'' @ [FW_G]]]\<rparr>"]
    by auto
qed

section \<open>Which records reach the sheet\<close>

text \<open>
  C1: a record handed to the storage step has a non-empty name and at least one non-empty
  field among the four amounts, the unit and the note. In the PDF variant every
  synthesized record is of that kind and all of them are handed on; in the HTML variant the
  records handed on are the synthesized ones that pass the filter, and a synthesized record
  without a name or without any such field is not among them.
\<close>

theorem C1_only_meaningful_records_retained:
  "(main items pdf_url today_str ws = Completed recs ws' \<longrightarrow>
      all_records items pdf_url = Some recs \<and>
      (\<forall>rec \<in> set recs.
         seibunn rec \<noteq> [] \<and>
         list_ex (\<lambda>v. v \<noteq> [])
           [ryou1 rec, ryou2 rec, ryou3 rec, ryou4 rec, tanni rec, bikou rec])) \<and>
   html_records tables_rows = filter html_keep (map row_to_record (concat tables_rows)) \<and>
   (\<forall>rec \<in> set (html_records tables_rows).
      h_seibunmei rec \<noteq> [] \<and>
      list_ex (\<lambda>v. v \<noteq> [])
        [h_saidai1 rec, h_saidai2 rec, h_saidai3 rec, h_saidai4 rec, h_tani rec, h_bikou rec]) \<and>
   (\<forall>rec \<in> set (map row_to_record (concat tables_rows)).
      \<not> (h_seibunmei rec \<noteq> [] \<and>
         list_ex (\<lambda>v. v \<noteq> [])
           [h_saidai1 rec, h_saidai2 rec, h_saidai3 rec, h_saidai4 rec, h_tani rec, h_bikou rec])
      \<longrightarrow> rec \<notin> set (html_records tables_rows))"
proof -
  have keep: "h_seibunmei rec \<noteq> [] \<and>
      list_ex (\<lambda>v. v \<noteq> [])
        [h_saidai1 rec, h_saidai2 rec, h_saidai3 rec, h_saidai4 rec, h_tani rec, h_bikou rec]"
    if "html_keep rec" for rec
    using that by (auto simp: html_keep_def has_meaningful_values_def)
  have pdf: "all_records items pdf_url = Some recs \<and>
      (\<forall>rec \<in> set recs.
         seibunn rec \<noteq> [] \<and>
         list_ex (\<lambda>v. v \<noteq> [])
           [ryou1 rec, ryou2 rec, ryou3 rec, ryou4 rec, tanni rec, bikou rec])"
    if m: "main items pdf_url today_str ws = Completed recs ws'"
  proof -
    from m have a: "all_records items pdf_url = Some recs"
      by (auto simp: main_def split: if_splits option.splits)
    then show ?thesis using all_records_retained [OF a] by auto
  qed
  show ?thesis
    using keep pdf by (auto simp: html_records_def)
qed

theorem C1_only_meaningful_records_retained_witness:
  "main [\<lparr>page = 1, order = 0,
          df = \<lparr>ncols = 2, rows = [[SEIBUNMEI, u ''x''], [u ''Alpha'', u ''5'' @ [FW_G]]]\<rparr>\<rparr>]
     (u ''U'') (u ''2026/01/01'') [] =
   Completed
     [\<lparr>seibunn = u ''Alpha'', jouken = [], ryou1 = u ''5'', ryou2 = [], ryou3 = [], ryou4 = [],
        tanni = u ''g'', bikou = [], url = u ''U''\<rparr>]
     [[Num 0, Txt (u ''2026/01/01''), Num 0, Txt (u ''Alpha''), Txt [], Txt (u ''5''), Txt [],
       Txt [], Txt [], Txt [], Txt (u ''g''), Txt [], Txt [], Txt [], Txt (u ''U'')]] \<and>
   all_records [\<lparr>page = 1, order = 0,
          df = \<lparr>ncols = 2, rows = [[SEIBUNMEI, u ''x''], [u ''Alpha'', u ''5'' @ [FW_G]]]\<rparr>\<rparr>]
     (u ''U'') =
   Some [\<lparr>seibunn = u ''Alpha'', jouken = [], ryou1 = u ''5'', ryou2 = [], ryou3 = [], ryou4 = [],
        tanni = u ''g'', bikou = [], url = u ''U''\<rparr>] \<and>
   html_records [[[u ''Delta''], [u ''Eps'', u ''5g'']]] =
     [\<lparr>h_seibunmei = u ''Eps'', h_saidai1 = u ''5'', h_saidai2 = [], h_saidai3 = [],
        h_saidai4 = [], h_tani = u ''g'', h_bikou = []\<rparr>] \<and>
   row_to_record [u ''Delta''] \<notin> set (html_records [[[u ''Delta''], [u ''Eps'', u ''5g'']]])"
proof -
  have m: "main [\<lparr>page = 1, order = 0,
          df = \<lparr>ncols = 2, rows = [[SEIBUNMEI, u ''x''], [u ''Alpha'', u ''5'' @ [FW_G]]]\<rparr>\<rparr>]
     (u ''U'') (u ''2026/01/01'') [] =
   Completed
     [\<lparr>seibunn = u ''Alpha'', jouken = [], ryou1 = u ''5'', ryou2 = [], ryou3 = [], ryou4 = [],
        tanni = u ''g'', bikou = [], url = u ''U''\<rparr>]
     [[Num 0, Txt (u ''2026/01/01''), Num 0, Txt (u ''Alpha''), Txt [], Txt (u ''5''), Txt [],
       Txt [], Txt [], Txt [], Txt (u ''g''), Txt [], Txt [], Txt [], Txt (u ''U'')]]"
    by code_simp
  have h: "html_records [[[u ''Delta''], [u ''Eps'', u ''5g'']]] =
     [\<lparr>h_seibunmei = u ''Eps'', h_saidai1 = u ''5'', h_saidai2 = [], h_saidai3 = [],
        h_saidai4 = [], h_tani = u ''g'', h_bikou = []\<rparr>]"
    by code_simp
  have d: "row_to_record [u ''Delta''] =
     \<lparr>h_seibunmei = u ''Delta'', h_saidai1 = [], h_saidai2 = [], h_saidai3 = [],
        h_saidai4 = [], h_tani = [], h_bikou = []\<rparr>"
    by code_simp
  have c: "concat [[[u ''Delta''], [u ''Eps'', u ''5g'']]] = [[u ''Delta''], [u ''Eps'', u ''5g'']]"
    by simp
  note t = C1_only_meaningful_records_retained [of
      "[\<lparr>page = 1, order = 0,
          df = \<lparr>ncols = 2, rows = [[SEIBUNMEI, u ''x''], [u ''Alpha'', u ''5'' @ [FW_G]]]\<rparr>\<rparr>]"
      "u ''U''" "u ''2026/01/01''" "[]" _ _ "[[[u ''Delta''], [u ''Eps'', u ''5g'']]]"]
  from t m have "all_records [\<lparr>page = 1, order = 0,
          df = \<lparr>ncols = 2, rows = [[SEIBUNMEI, u ''x''], [u ''Alpha'', u ''5'' @ [FW_G]]]\<rparr>\<rparr>]
     (u ''U'') =
   Some [\<lparr>seibunn = u ''Alpha'', jouken = [], ryou1 = u ''5'', ryou2 = [], ryou3 = [], ryou4 = [],
        tanni = u ''g'', bikou = [], url = u ''U''\<rparr>]"
    by blast
  moreover from t have "\<forall>rec \<in> set (map row_to_record (concat [[[u ''Delta''], [u ''Eps'', u ''5g'']]])).
      \<not> (h_seibunmei rec \<noteq> [] \<and>
         list_ex (\<lambda>v. v \<noteq> [])
           [h_saidai1 rec, h_saidai2 rec, h_saidai3 rec, h_saidai4 rec, h_tani rec, h_bikou rec])
      \<longrightarrow> rec \<notin> set (html_records [[[u ''Delta''], [u ''Eps'', u ''5g'']]])"
    by blast
  then have "row_to_record [u ''Delta''] \<notin> set (html_records [[[u ''Delta''], [u ''Eps'', u ''5g'']]])"
    unfolding c by (simp add: d)
  ultimately show ?thesis using m h by blast
qed

section \<open>Tables of one or three columns\<close>






section \<open>When a run fails\<close>

text \<open>
  C4, as stated, at a run with one extracted table whose two rows are both dropped (a header
  row and a row of digits): no record is produced, and the run completes without a failure;
  nothing is appended to the sheet.
\<close>

theorem C4_no_records_no_failure:
  "main [\<lparr>page = 1, order = 0,
          df = \<lparr>ncols = 2, rows = [[SEIBUNMEI, u ''x''], [u ''1'', u ''2'']]\<rparr>\<rparr>]
     (u ''U'') (u ''2026/01/01'') [] = Completed [] []"
  by code_simp

text \<open>
  C4 (amended): the orchestrator ends with a failure (exit status 1) exactly when the
  sequence of extracted tables is empty, before any record is synthesized. With at least
  one extracted table the run completes and hands its records to the sheet step, also when
  there is no record at all; the sheet step then leaves the sheet as it is.
\<close>

theorem C4_failure_iff_no_table:
  "(main items pdf_url today_str ws = Exit 1 \<longleftrightarrow> items = []) \<and>
   (items \<noteq> [] \<longrightarrow>
      (\<exists>recs. all_records items pdf_url = Some recs \<and>
         main items pdf_url today_str ws =
           Completed recs (append_records_to_sheet ws recs today_str))) \<and>
   append_records_to_sheet ws [] today_str = ws"
proof (intro conjI impI)
  show "main items pdf_url today_str ws = Exit 1 \<longleftrightarrow> items = []"
    by (auto simp: main_def split: option.splits)
next
  assume "items \<noteq> []"
  then show "\<exists>recs. all_records items pdf_url = Some recs \<and>
         main items pdf_url today_str ws =
           Completed recs (append_records_to_sheet ws recs today_str)"
    by (rule main_completed)
next
  show "append_records_to_sheet ws [] today_str = ws"
    by (simp add: append_records_to_sheet_def)
qed

theorem C4_failure_iff_no_table_witness:
  "main [] (u ''U'') (u ''2026/01/01'') [] = Exit 1 \<and>
   [\<lparr>page = 1, order = 0,
      df = \<lparr>ncols = 2, rows = [[SEIBUNMEI, u ''x''], [u ''Alpha'', u ''5'' @ [FW_G]]]\<rparr>\<rparr>] \<noteq> [] \<and>
   (\<exists>recs. all_records [\<lparr>page = 1, order = 0,
              df = \<lparr>ncols = 2, rows = [[SEIBUNMEI, u ''x''], [u ''Alpha'', u ''5'' @ [FW_G]]]\<rparr>\<rparr>]
             (u ''U'') = Some recs \<and>
      main [\<lparr>page = 1, order = 0,
              df = \<lparr>ncols = 2, rows = [[SEIBUNMEI, u ''x''], [u ''Alpha'', u ''5'' @ [FW_G]]]\<rparr>\<rparr>]
        (u ''U'') (u ''2026/01/01'') [] =
      Completed recs (append_records_to_sheet [] recs (u ''2026/01/01'')))"
  using
    C4_failure_iff_no_table [of "[]" "u ''U''" "u ''2026/01/01''" "[]"]
    C4_failure_iff_no_table [of
      "[\<lparr>page = 1, order = 0,
          df = \<lparr>ncols = 2, rows = [[SEIBUNMEI, u ''x''], [u ''Alpha'', u ''5'' @ [FW_G]]]\<rparr>\<rparr>]"
      "u ''U''" "u ''2026/01/01''" "[]"]
  by simp

section \<open>Row Classifier: one test per variant\<close>

lemma isspace_blank [simp]: "isspace SP" "isspace ZSP" "isspace TAB"
  by (simp_all add: isspace_def SP_def ZSP_def TAB_def)

lemma replace_ne_single:
  "replace_ne [a] [b] s = map (\<lambda>c. if c = a then b else c) s"
  by (induction s) auto

lemma str_replace_zsp:
  "str_replace [ZSP] [SP] s = map (\<lambda>c. if c = ZSP then SP else c) s"
  by (simp add: str_replace_def replace_ne_single)

lemma dropWhile_none: "list_all (\<lambda>c. \<not> P c) s \<Longrightarrow> dropWhile P s = s"
  by (cases s) auto

lemma strip_no_space: "list_all (\<lambda>c. \<not> isspace c) s \<Longrightarrow> strip s = s"
  by (simp add: strip_def dropWhile_none list_all_iff)

text \<open>\<open>norm_no_space\<close> deletes all whitespace and nothing else.\<close>

lemma norm_no_space_filter: "norm_no_space s = filter (\<lambda>c. \<not> isspace c) s"
proof -
  have "filter (\<lambda>c. \<not> isspace c) (map (\<lambda>c. if c = ZSP then SP else c) s) =
        filter (\<lambda>c. \<not> isspace c) s"
    by (induction s) auto
  then show ?thesis
    by (simp add: norm_no_space_def str_replace_zsp strip_no_space list_all_iff)
qed

lemma norm_EXPECTED_HEADER: "map norm EXPECTED_HEADER = EXPECTED_HEADER"
  by code_simp

text \<open>
  C7, as stated, in each variant: the row of the three header cells meets condition (3) and
  is kept by the classifier of the PDF variant; the row 12, 345, empty meets condition (1)
  and is kept by the HTML variant.
\<close>

theorem C7_each_variant_keeps_a_listed_row:
  "is_header_row EXPECTED_HEADER \<and>
   drop_unwanted_rows \<lparr>ncols = 3, rows = [EXPECTED_HEADER]\<rparr> =
     \<lparr>ncols = 3, rows = [EXPECTED_HEADER]\<rparr> \<and>
   is_digit_row [u ''12'', u ''345'', []] \<and>
   build_tables_rows [[[u ''12'', u ''345'', []]]] = [[[u ''12'', u ''345'', []]]]"
  by code_simp

text \<open>
  C7 (amended): the PDF variant drops a row of a non-empty table exactly when (1) the row has
  at least one cell that is non-empty and not "nan" after trimming and at least four fifths
  of these cells are strings of digits, or (2) its column-0 text with all whitespace removed
  is the header label; it keeps the other rows in order and does not test the header
  template. The HTML variant drops a row exactly when (3) its cells, normalized one by one,
  are the three cells of the header template; it keeps the other rows in order and tests
  neither (1) nor (2). In the PDF variant the row 12, 345, empty is dropped and the row
  12, abc is kept.
\<close>

theorem C7_row_classifier_by_variant:
  "(\<not> df_empty d \<longrightarrow>
      rows (drop_unwanted_rows d) =
        filter (\<lambda>row. \<not> (is_digit_row row \<or> is_seibunmei row)) (rows d) \<and>
      ncols (drop_unwanted_rows d) = ncols d) \<and>
   (is_digit_row row \<longleftrightarrow>
      (let nonempty = filter (\<lambda>c. c \<noteq> [] \<and> \<not> lower_is_nan c) (map strip row)
       in nonempty \<noteq> [] \<and> 4 * length nonempty \<le> 5 * length (filter is_int_string nonempty))) \<and>
   (is_seibunmei row \<longleftrightarrow> row \<noteq> [] \<and> filter (\<lambda>c. \<not> isspace c) (row ! 0) = SEIBUNMEI) \<and>
   build_tables_rows tables = map (filter (\<lambda>row. \<not> is_header_row row)) tables \<and>
   (is_header_row row \<longleftrightarrow> map norm row = EXPECTED_HEADER) \<and>
   rows (drop_unwanted_rows \<lparr>ncols = 3, rows = [[u ''12'', u ''345'', []]]\<rparr>) = [] \<and>
   rows (drop_unwanted_rows \<lparr>ncols = 2, rows = [[u ''12'', u ''abc'']]\<rparr>) = [[u ''12'', u ''abc'']]"
proof (intro conjI impI)
  assume "\<not> df_empty d"
  then show "rows (drop_unwanted_rows d) =
        filter (\<lambda>row. \<not> (is_digit_row row \<or> is_seibunmei row)) (rows d)"
    by (simp add: drop_unwanted_rows_def)
next
  assume "\<not> df_empty d"
  then show "ncols (drop_unwanted_rows d) = ncols d"
    by (simp add: drop_unwanted_rows_def)
next
  show "is_digit_row row \<longleftrightarrow>
      (let nonempty = filter (\<lambda>c. c \<noteq> [] \<and> \<not> lower_is_nan c) (map strip row)
       in nonempty \<noteq> [] \<and> 4 * length nonempty \<le> 5 * length (filter is_int_string nonempty))"
    by (simp add: is_digit_row_def Let_def)
next
  show "is_seibunmei row \<longleftrightarrow> row \<noteq> [] \<and> filter (\<lambda>c. \<not> isspace c) (row ! 0) = SEIBUNMEI"
    by (auto simp: is_seibunmei_def Let_def norm_no_space_filter SEIBUNMEI_def)
next
  show "build_tables_rows tables = map (filter (\<lambda>row. \<not> is_header_row row)) tables"
    by (simp add: build_tables_rows_def)
next
  show "is_header_row row \<longleftrightarrow> map norm row = EXPECTED_HEADER"
    by (simp add: is_header_row_def norm_EXPECTED_HEADER)
next
  show "rows (drop_unwanted_rows \<lparr>ncols = 3, rows = [[u ''12'', u ''345'', []]]\<rparr>) = []"
    by code_simp
next
  show "rows (drop_unwanted_rows \<lparr>ncols = 2, rows = [[u ''12'', u ''abc'']]\<rparr>) = [[u ''12'', u ''abc'']]"
    by code_simp
qed

theorem C7_row_classifier_by_variant_witness:
  "\<not> df_empty \<lparr>ncols = 2,
       rows = [[SP # SEIBUNMEI, u ''x''], [u ''12'', u ''345''], [u ''Alpha'', u ''5'']]\<rparr> \<and>
   rows (drop_unwanted_rows \<lparr>ncols = 2,
       rows = [[SP # SEIBUNMEI, u ''x''], [u ''12'', u ''345''], [u ''Alpha'', u ''5'']]\<rparr>) =
     [[u ''Alpha'', u ''5'']] \<and>
   is_header_row (map (\<lambda>c. SP # c @ [ZSP]) EXPECTED_HEADER) \<and>
   build_tables_rows [[map (\<lambda>c. SP # c @ [ZSP]) EXPECTED_HEADER, [u ''Alpha'', u ''5'']]] =
     [[[u ''Alpha'', u ''5'']]]"
proof -
  have e: "\<not> df_empty \<lparr>ncols = 2,
       rows = [[SP # SEIBUNMEI, u ''x''], [u ''12'', u ''345''], [u ''Alpha'', u ''5'']]\<rparr>"
    by (simp add: df_empty_def)
  have f: "filter (\<lambda>row. \<not> (is_digit_row row \<or> is_seibunmei row))
             [[SP # SEIBUNMEI, u ''x''], [u ''12'', u ''345''], [u ''Alpha'', u ''5'']] =
           [[u ''Alpha'', u ''5'']]"
    by code_simp
  have n: "map norm (map (\<lambda>c. SP # c @ [ZSP]) EXPECTED_HEADER) = EXPECTED_HEADER"
    by code_simp
  have a: "\<not> is_header_row [u ''Alpha'', u ''5'']"
    by code_simp
  note t = C7_row_classifier_by_variant [of
      "\<lparr>ncols = 2,
        rows = [[SP # SEIBUNMEI, u ''x''], [u ''12'', u ''345''], [u ''Alpha'', u ''5'']]\<rparr>"
      "map (\<lambda>c. SP # c @ [ZSP]) EXPECTED_HEADER"
      "[[map (\<lambda>c. SP # c @ [ZSP]) EXPECTED_HEADER, [u ''Alpha'', u ''5'']]]"]
  from t e f have "rows (drop_unwanted_rows \<lparr>ncols = 2,
       rows = [[SP # SEIBUNMEI, u ''x''], [u ''12'', u ''345''], [u ''Alpha'', u ''5'']]\<rparr>) =
     [[u ''Alpha'', u ''5'']]"
    by simp
  moreover from t n have h: "is_header_row (map (\<lambda>c. SP # c @ [ZSP]) EXPECTED_HEADER)"
    by blast
  moreover from t h a
  have "build_tables_rows [[map (\<lambda>c. SP # c @ [ZSP]) EXPECTED_HEADER, [u ''Alpha'', u ''5'']]] =
     [[[u ''Alpha'', u ''5'']]]"
    by simp
  ultimately show ?thesis using e by blast
qed

section \<open>Token Redistributor: padding and the place of the moved token\<close>

lemma split_tokens_skip: "isspace c \<Longrightarrow> split_tokens (c # s) = split_tokens s"
  by (simp add: split_tokens.simps [of "c # s"] split_tokens.simps [of s])

lemma split_tokens_word:
  assumes "t \<noteq> []" "list_all (\<lambda>c. \<not> isspace c) t" "rest = [] \<or> isspace (hd rest)"
  shows "split_tokens (t @ rest) = t # split_tokens rest"
proof -
  have hd: "\<not> isspace (hd t)" using assms(1,2) by (cases t) auto
  have d: "dropWhile isspace (t @ rest) = t @ rest"
    using assms(1) hd by (cases t) auto
  have tw: "takeWhile (\<lambda>c. \<not> isspace c) (t @ rest) = t"
    using assms(2,3) by (cases rest) (auto simp: list_all_iff takeWhile_append2)
  have dw: "dropWhile (\<lambda>c. \<not> isspace c) (t @ rest) = rest"
    using assms(2,3) by (cases rest) (auto simp: list_all_iff dropWhile_append2)
  show ?thesis
    using assms(1) by (subst split_tokens.simps) (simp add: d tw dw Let_def)
qed

lemma split_tokens_join_sp:
  "list_all (\<lambda>t. t \<noteq> [] \<and> list_all (\<lambda>c. \<not> isspace c) t) ts \<Longrightarrow>
   split_tokens (join_sp ts) = ts"
proof (induction ts rule: join_sp.induct)
  case 1
  show ?case by simp
next
  case (2 t)
  then show ?case using split_tokens_word [of t "[]"] by simp
next
  case (3 t v va)
  have "split_tokens (t @ SP # join_sp (v # va)) = t # split_tokens (SP # join_sp (v # va))"
    using 3(2) by (intro split_tokens_word) simp_all
  then show ?case using 3 by (simp add: split_tokens_skip)
qed

text \<open>Joining and splitting again leaves the non-empty tokens: padding does not survive.\<close>

lemma split_tokens_join_tokens:
  assumes "list_all (\<lambda>t. list_all (\<lambda>c. \<not> isspace c) t) ts"
  shows "split_tokens (join_tokens ts) = filter (\<lambda>t. t \<noteq> []) ts"
  unfolding join_tokens_def
  using assms by (intro split_tokens_join_sp) (auto simp: list_all_iff)

lemma split_tokens_clean:
  "list_all (\<lambda>t. t \<noteq> [] \<and> list_all (\<lambda>c. \<not> isspace c) t) (split_tokens s)"
  using split_tokens_token [of _ s] by (auto simp: list_all_iff list_ex_iff)

lemma hits_split:
  "hits c1 = (if c1 \<noteq> [] \<and> TOKEN_IS_AMOUNT (c1 ! 0) then [0] else []) @ filter (\<lambda>j. 0 < j) (hits c1)"
proof (cases c1)
  case Nil
  then show ?thesis by (simp add: hits_def)
next
  case (Cons a as)
  have "[0..<length c1] = 0 # [Suc 0..<length c1]"
    using Cons by (subst upt_rec) simp
  moreover have "filter (\<lambda>j. 0 < j) (filter (\<lambda>i. TOKEN_IS_AMOUNT (c1 ! i)) [Suc 0..<length c1]) =
                 filter (\<lambda>i. TOKEN_IS_AMOUNT (c1 ! i)) [Suc 0..<length c1]"
    by (rule filter_True) auto
  ultimately show ?thesis using Cons by (simp add: hits_def)
qed

lemma move_step_zero: "move_step 0 st = Some st"
  by (cases st) (simp add: move_step_def)

text \<open>One moved token whose target position lies beyond the amount tokens.\<close>

lemma move_loop_single:
  assumes "filter (\<lambda>j. 0 < j) (hits c1) = [i]" "length c2 < i - 1"
  shows "move_loop (rev (hits c1)) (c1, c2) =
         Some (take i c1 @ drop (Suc i) c1, c2 @ replicate (i - 1 - length c2) [] @ [c1 ! i])"
proof -
  have "i \<in> set (filter (\<lambda>j. 0 < j) (hits c1))"
    using assms(1) by simp
  then have i: "i < length c1" "0 < i"
    by (auto simp: hits_def)
  have step: "move_step i (c1, c2) =
      Some (take i c1 @ drop (Suc i) c1, c2 @ replicate (i - 1 - length c2) [] @ [c1 ! i])"
    using i assms(2) by (simp add: move_step_def list_pop_def list_insert_def Let_def)
  have "rev (hits c1) = [i] \<or> rev (hits c1) = [i, 0]"
    using hits_split [of c1] assms(1) by (auto split: if_splits)
  then show ?thesis
    using step by (auto simp: move_step_zero)
qed

lemma move_step_clean:
  assumes "move_step j (c1, c2) = Some (c1', c2')"
    and "list_all (\<lambda>t. list_all (\<lambda>c. \<not> isspace c) t) c1"
    and "list_all (\<lambda>t. list_all (\<lambda>c. \<not> isspace c) t) c2"
  shows "list_all (\<lambda>t. list_all (\<lambda>c. \<not> isspace c) t) c1' \<and>
         list_all (\<lambda>t. list_all (\<lambda>c. \<not> isspace c) t) c2'"
proof (cases "j = 0")
  case True
  then show ?thesis using assms by (simp add: move_step_def)
next
  case False
  then have j: "j < length c1"
    and c1': "c1' = take j c1 @ drop (Suc j) c1"
    and c2': "c2' = list_insert (j - 1) (c1 ! j)
                (if j - 1 > length c2 then c2 @ replicate (j - 1 - length c2) [] else c2)"
    using assms(1) by (auto simp: move_step_def list_pop_def Let_def split: if_splits)
  have "list_all (\<lambda>c. \<not> isspace c) (c1 ! j)"
    using assms(2) j by (simp add: list_all_length)
  then show ?thesis
    using assms(2,3) unfolding c1' c2'
    by (auto simp: list_all_iff list_insert_def dest: in_set_takeD in_set_dropD)
qed

lemma move_loop_clean:
  "move_loop js (c1, c2) = Some (c1', c2') \<Longrightarrow>
   list_all (\<lambda>t. list_all (\<lambda>c. \<not> isspace c) t) c1 \<Longrightarrow>
   list_all (\<lambda>t. list_all (\<lambda>c. \<not> isspace c) t) c2 \<Longrightarrow>
   list_all (\<lambda>t. list_all (\<lambda>c. \<not> isspace c) t) c1' \<and>
   list_all (\<lambda>t. list_all (\<lambda>c. \<not> isspace c) t) c2'"
proof (induction js arbitrary: c1 c2)
  case Nil
  then show ?case by simp
next
  case (Cons j js)
  from Cons.prems(1) obtain d1 d2 where s: "move_step j (c1, c2) = Some (d1, d2)"
    and l: "move_loop js (d1, d2) = Some (c1', c2')"
    by (auto split: option.splits)
  from move_step_clean [OF s Cons.prems(2,3)] Cons.IH [OF l] show ?case by blast
qed

lemma split_tokens_no_space:
  "list_all (\<lambda>t. list_all (\<lambda>c. \<not> isspace c) t) (split_tokens s)"
  using split_tokens_clean [of s] by (auto simp: list_all_iff)

lemma move_row_tokens:
  "\<exists>c1' c2'. move_loop (rev (hits (split_tokens cell0))) (split_tokens cell0, split_tokens cell1) =
       Some (c1', c2') \<and>
     move_row cell0 cell1 = Some (join_tokens c1', join_tokens c2') \<and>
     split_tokens (join_tokens c1') = filter (\<lambda>t. t \<noteq> []) c1' \<and>
     split_tokens (join_tokens c2') = filter (\<lambda>t. t \<noteq> []) c2'"
proof -
  obtain st where st: "move_loop (rev (hits (split_tokens cell0)))
      (split_tokens cell0, split_tokens cell1) = Some st"
    using move_loop_total hits_descending by blast
  obtain c1' c2' where p: "st = (c1', c2')" by (cases st)
  from move_loop_clean [OF st [unfolded p] split_tokens_no_space split_tokens_no_space]
  have "split_tokens (join_tokens c1') = filter (\<lambda>t. t \<noteq> []) c1'"
    "split_tokens (join_tokens c2') = filter (\<lambda>t. t \<noteq> []) c2'"
    by (simp_all add: split_tokens_join_tokens)
  moreover have "move_row cell0 cell1 = Some (join_tokens c1', join_tokens c2')"
    using st p by (simp add: move_row_def Let_def)
  ultimately show ?thesis using st p by blast
qed

text \<open>
  C9, as stated, on two rows with two amount tokens each. On the row A, B, C, 1<U+FF47>,
  2<U+FF47> against X, the token of index 4 is handled first with target 3 beyond the one
  amount token, and ends at index 2 of the final tokens, not at the original count 1. On the
  row A, 1<U+FF47>, 2<U+FF47> against the empty cell, the token of index 2 has target 1
  beyond the empty list and does end at index 1.
\<close>

theorem C9_two_moved_tokens:
  "hits (split_tokens (u ''A B C 1'' @ [FW_G] @ u '' 2'' @ [FW_G])) = [3, 4] \<and>
   split_tokens (u ''X'') = [u ''X''] \<and>
   move_row (u ''A B C 1'' @ [FW_G] @ u '' 2'' @ [FW_G]) (u ''X'') =
     Some (u ''A B C'', u ''X 1'' @ [FW_G] @ u '' 2'' @ [FW_G]) \<and>
   split_tokens (u ''X 1'' @ [FW_G] @ u '' 2'' @ [FW_G]) = [u ''X'', u ''1'' @ [FW_G], u ''2'' @ [FW_G]] \<and>
   hits (split_tokens (u ''A 1'' @ [FW_G] @ u '' 2'' @ [FW_G])) = [1, 2] \<and>
   split_tokens [] = [] \<and>
   move_row (u ''A 1'' @ [FW_G] @ u '' 2'' @ [FW_G]) [] =
     Some (u ''A'', u ''1'' @ [FW_G] @ u '' 2'' @ [FW_G]) \<and>
   split_tokens (u ''1'' @ [FW_G] @ u '' 2'' @ [FW_G]) = [u ''1'' @ [FW_G], u ''2'' @ [FW_G]]"
  by code_simp

text \<open>
  C9 (amended): after the Token Redistributor has processed a row, the rejoined cells hold
  no empty token: the tokens of each rejoined cell are the non-empty entries of the token
  list the loop ends with, so the padding put into column 1 does not survive. Consequently, when a token of index i is the only amount token of the row
  that is moved (the only one at a positive index) and i - 1 exceeds the number of column-1
  tokens, the final column-1 tokens are the original ones followed by the moved token: it
  stands at the index equal to the original column-1 token count, which is smaller than
  i - 1, and column 0 loses exactly that token.
\<close>

theorem C9_single_moved_token_lands_last:
  "(\<exists>c1' c2'.
      move_loop (rev (hits (split_tokens cell0))) (split_tokens cell0, split_tokens cell1) =
        Some (c1', c2') \<and>
      move_row cell0 cell1 = Some (join_tokens c1', join_tokens c2') \<and>
      split_tokens (join_tokens c1') = filter (\<lambda>t. t \<noteq> []) c1' \<and>
      split_tokens (join_tokens c2') = filter (\<lambda>t. t \<noteq> []) c2') \<and>
   (list_all (\<lambda>t. list_all (\<lambda>c. \<not> isspace c) t) ts \<longrightarrow>
       split_tokens (join_tokens ts) = filter (\<lambda>t. t \<noteq> []) ts) \<and>
   (filter (\<lambda>j. 0 < j) (hits (split_tokens cell0)) = [i] \<and> length (split_tokens cell1) < i - 1 \<longrightarrow>
      (\<exists>a b. move_row cell0 cell1 = Some (a, b) \<and>
         split_tokens a = take i (split_tokens cell0) @ drop (Suc i) (split_tokens cell0) \<and>
         split_tokens b = split_tokens cell1 @ [split_tokens cell0 ! i] \<and>
         split_tokens b ! length (split_tokens cell1) = split_tokens cell0 ! i \<and>
         length (split_tokens cell1) \<noteq> i - 1))"
proof (intro conjI impI)
  show "\<exists>c1' c2'.
      move_loop (rev (hits (split_tokens cell0))) (split_tokens cell0, split_tokens cell1) =
        Some (c1', c2') \<and>
      move_row cell0 cell1 = Some (join_tokens c1', join_tokens c2') \<and>
      split_tokens (join_tokens c1') = filter (\<lambda>t. t \<noteq> []) c1' \<and>
      split_tokens (join_tokens c2') = filter (\<lambda>t. t \<noteq> []) c2'"
    by (rule move_row_tokens)
next
  assume "list_all (\<lambda>t. list_all (\<lambda>c. \<not> isspace c) t) ts"
  then show "split_tokens (join_tokens ts) = filter (\<lambda>t. t \<noteq> []) ts"
    by (rule split_tokens_join_tokens)
next
  let ?c1 = "split_tokens cell0"
  let ?c2 = "split_tokens cell1"
  assume "filter (\<lambda>j. 0 < j) (hits ?c1) = [i] \<and> length ?c2 < i - 1"
  then have h: "filter (\<lambda>j. 0 < j) (hits ?c1) = [i]" and l: "length ?c2 < i - 1"
    by simp_all
  have "i \<in> set (filter (\<lambda>j. 0 < j) (hits ?c1))"
    using h by simp
  then have i: "i < length ?c1" by (auto simp: hits_def)
  have c1: "list_all (\<lambda>t. t \<noteq> [] \<and> list_all (\<lambda>c. \<not> isspace c) t) ?c1"
    and c2: "list_all (\<lambda>t. t \<noteq> [] \<and> list_all (\<lambda>c. \<not> isspace c) t) ?c2"
    by (rule split_tokens_clean)+
  have tok: "?c1 ! i \<noteq> [] \<and> list_all (\<lambda>c. \<not> isspace c) (?c1 ! i)"
    using c1 i by (auto simp: list_all_iff)
  let ?a = "join_tokens (take i ?c1 @ drop (Suc i) ?c1)"
  let ?b = "join_tokens (?c2 @ replicate (i - 1 - length ?c2) [] @ [?c1 ! i])"
  have m: "move_row cell0 cell1 = Some (?a, ?b)"
    using move_loop_single [OF h l] by (simp add: move_row_def Let_def)
  have "list_all (\<lambda>t. t \<noteq> [] \<and> list_all (\<lambda>c. \<not> isspace c) t) (take i ?c1 @ drop (Suc i) ?c1)"
    using c1 by (auto simp: list_all_iff dest: in_set_takeD in_set_dropD)
  then have a: "split_tokens ?a = take i ?c1 @ drop (Suc i) ?c1"
    by (subst split_tokens_join_tokens) (auto simp: list_all_iff intro: filter_True)
  have "list_all (\<lambda>t. list_all (\<lambda>c. \<not> isspace c) t) (?c2 @ replicate (i - 1 - length ?c2) [] @ [?c1 ! i])"
    using c2 tok by (auto simp: list_all_iff)
  then have "split_tokens ?b = filter (\<lambda>t. t \<noteq> []) (?c2 @ replicate (i - 1 - length ?c2) [] @ [?c1 ! i])"
    by (rule split_tokens_join_tokens)
  also have "\<dots> = ?c2 @ [?c1 ! i]"
    using c2 tok by (auto simp: list_all_iff intro: filter_True)
  finally have b: "split_tokens ?b = ?c2 @ [?c1 ! i]" .
  have "move_row cell0 cell1 = Some (?a, ?b) \<and>
         split_tokens ?a = take i ?c1 @ drop (Suc i) ?c1 \<and>
         split_tokens ?b = ?c2 @ [?c1 ! i] \<and>
         split_tokens ?b ! length ?c2 = ?c1 ! i \<and>
         length ?c2 \<noteq> i - 1"
    using m a b l by simp
  then show "\<exists>a b. move_row cell0 cell1 = Some (a, b) \<and>
         split_tokens a = take i ?c1 @ drop (Suc i) ?c1 \<and>
         split_tokens b = ?c2 @ [?c1 ! i] \<and>
         split_tokens b ! length ?c2 = ?c1 ! i \<and>
         length ?c2 \<noteq> i - 1"
    by blast
qed

theorem C9_single_moved_token_lands_last_witness:
  "filter (\<lambda>j. 0 < j) (hits (split_tokens (u ''A B C 12'' @ [FW_G]))) = [3] \<and>
   length (split_tokens (u ''X'')) < 3 - 1 \<and>
   move_row (u ''A B C 12'' @ [FW_G]) (u ''X'') = Some (u ''A B C'', u ''X 12'' @ [FW_G]) \<and>
   split_tokens (u ''X 12'' @ [FW_G]) = [u ''X'', u ''12'' @ [FW_G]] \<and>
   split_tokens (u ''X 12'' @ [FW_G]) ! 1 = split_tokens (u ''A B C 12'' @ [FW_G]) ! 3 \<and>
   list_all (\<lambda>t. list_all (\<lambda>c. \<not> isspace c) t) [u ''X'', [], u ''12'' @ [FW_G]] \<and>
   split_tokens (join_tokens [u ''X'', [], u ''12'' @ [FW_G]]) = [u ''X'', u ''12'' @ [FW_G]]"
proof -
  have h: "filter (\<lambda>j. 0 < j) (hits (split_tokens (u ''A B C 12'' @ [FW_G]))) = [3]"
    by code_simp
  have l: "length (split_tokens (u ''X'')) < 3 - 1"
    by code_simp
  have c: "split_tokens (u ''X'') = [u ''X'']"
    "split_tokens (u ''A B C 12'' @ [FW_G]) = [u ''A'', u ''B'', u ''C'', u ''12'' @ [FW_G]]"
    by code_simp+
  have m: "move_row (u ''A B C 12'' @ [FW_G]) (u ''X'') = Some (u ''A B C'', u ''X 12'' @ [FW_G])"
    by code_simp
  have p: "list_all (\<lambda>t. list_all (\<lambda>c. \<not> isspace c) t) [u ''X'', [], u ''12'' @ [FW_G]]"
    by code_simp
  note t = C9_single_moved_token_lands_last [of "u ''A B C 12'' @ [FW_G]" "u ''X''"
      "[u ''X'', [], u ''12'' @ [FW_G]]" 3]
  from t h l m have "split_tokens (u ''X 12'' @ [FW_G]) = split_tokens (u ''X'') @
      [split_tokens (u ''A B C 12'' @ [FW_G]) ! 3]"
    by auto
  moreover from t p
  have "split_tokens (join_tokens [u ''X'', [], u ''12'' @ [FW_G]]) =
        filter (\<lambda>t. t \<noteq> []) [u ''X'', [], u ''12'' @ [FW_G]]"
    by blast
  ultimately show ?thesis
    using h l m p c by (simp add: u_def)
qed

section \<open>The HTML value parser: what survives normalization\<close>

lemma mem_dropWhile: "x \<in> set xs \<Longrightarrow> \<not> P x \<Longrightarrow> x \<in> set (dropWhile P xs)"
  by (induction xs) auto

lemma strip_mem: "c \<in> set s \<Longrightarrow> \<not> isspace c \<Longrightarrow> c \<in> set (strip s)"
  by (simp add: strip_def mem_dropWhile)

lemma collapse_ws_mem: "c \<in> set s \<Longrightarrow> \<not> isspace c \<Longrightarrow> c \<in> set (collapse_ws s)"
  by (induction s rule: collapse_ws.induct) (auto simp: mem_dropWhile)

lemma norm_mem: "c \<in> set s \<Longrightarrow> \<not> isspace c \<Longrightarrow> c \<in> set (norm s)"
  by (auto simp: norm_def str_replace_zsp intro!: strip_mem collapse_ws_mem)

lemma replace_ne_mem:
  "c \<in> set s \<Longrightarrow> c \<notin> set old \<Longrightarrow> old \<noteq> [] \<Longrightarrow> c \<in> set (replace_ne old new s)"
proof (induction old new s rule: replace_ne.induct)
  case (1 old new)
  then show ?case by simp
next
  case (2 old new x xs)
  note ih = "2.IH" and pr = "2.prems"
  show ?case
  proof (cases "prefix old (x # xs)")
    case True
    then obtain rest where r: "x # xs = old @ rest" by (auto simp: prefix_def)
    then have d: "drop (length old - 1) xs = rest" using pr(3) by (cases old) auto
    have "c \<in> set rest" using pr(1,2) r by (metis Un_iff set_append)
    then show ?thesis using ih(1) [OF True] pr(2,3) True d by simp
  next
    case False
    then show ?thesis using ih(2) [OF False] pr by auto
  qed
qed

lemma sublist_dropWhile_keep:
  assumes "sublist p s" "p \<noteq> []" "\<not> P (hd p)"
  shows "sublist p (dropWhile P s)"
proof -
  from assms(1) obtain a b where s: "s = a @ p @ b" by (auto simp: sublist_def)
  have "dropWhile P (p @ b) = p @ b" using assms(2,3) by (cases p) auto
  then have "dropWhile P s = (if \<forall>x\<in>set a. P x then p @ b else dropWhile P a @ p @ b)"
    unfolding s by (simp add: dropWhile_append)
  then show ?thesis by (auto simp: sublist_def intro: exI [of _ "[]"])
qed

lemma sublist_strip:
  assumes "sublist p s" "p \<noteq> []" "list_all (\<lambda>c. \<not> isspace c) p"
  shows "sublist p (strip s)"
proof -
  have hd: "\<not> isspace (hd p)" and lst: "\<not> isspace (hd (rev p))"
    using assms(2,3) by (auto simp: list_all_iff hd_rev)
  have "sublist p (dropWhile isspace s)"
    using assms(1,2) hd by (rule sublist_dropWhile_keep)
  then have "sublist (rev p) (rev (dropWhile isspace s))" by simp
  then have "sublist (rev p) (dropWhile isspace (rev (dropWhile isspace s)))"
    using assms(2) lst by (intro sublist_dropWhile_keep) simp_all
  then show ?thesis by (simp add: strip_def sublist_rev_left)
qed

lemma collapse_ws_clean: "list_all (\<lambda>c. \<not> isspace c) p \<Longrightarrow> collapse_ws (p @ b) = p @ collapse_ws b"
  by (induction p) auto

lemma collapse_ws_append:
  "ys = [] \<or> \<not> isspace (hd ys) \<Longrightarrow> collapse_ws (xs @ ys) = collapse_ws xs @ collapse_ws ys"
proof (induction xs rule: collapse_ws.induct)
  case 1
  show ?case by simp
next
  case (2 c cs)
  show ?case
  proof (cases "isspace c")
    case True
    have "dropWhile isspace (cs @ ys) = dropWhile isspace cs @ ys"
      using 2(3) by (cases ys) (auto simp: dropWhile_append)
    then show ?thesis using True 2(1) [OF True 2(3)] by simp
  next
    case False
    then show ?thesis using 2(2) [OF False 2(3)] by simp
  qed
qed

lemma sublist_collapse_ws:
  assumes "sublist p s" "p \<noteq> []" "list_all (\<lambda>c. \<not> isspace c) p"
  shows "sublist p (collapse_ws s)"
proof -
  from assms(1) obtain a b where s: "s = a @ p @ b" by (auto simp: sublist_def)
  have "\<not> isspace (hd (p @ b))" using assms(2,3) by (cases p) auto
  then have "collapse_ws s = collapse_ws a @ p @ collapse_ws b"
    unfolding s using assms(3) by (simp add: collapse_ws_append collapse_ws_clean)
  then show ?thesis by (auto simp: sublist_def)
qed

lemma sublist_norm:
  assumes "sublist p s" "p \<noteq> []" "list_all (\<lambda>c. \<not> isspace c) p"
  shows "sublist p (norm s)"
proof -
  have "ZSP \<notin> set p"
    using assms(3) isspace_blank(2) by (auto simp: list_all_iff)
  then have "map (\<lambda>c. if c = ZSP then SP else c) p = p"
    by (intro map_idI) auto
  then have "sublist p (str_replace [ZSP] [SP] s)"
    using map_mono_sublist [OF assms(1), of "\<lambda>c. if c = ZSP then SP else c"]
    by (simp add: str_replace_zsp)
  then show ?thesis
    unfolding norm_def using assms(2,3) by (intro sublist_strip sublist_collapse_ws)
qed

lemma prefix_replace_ne:
  "prefix q s \<Longrightarrow> set q \<inter> set old = {} \<Longrightarrow> old \<noteq> [] \<Longrightarrow> prefix q (replace_ne old new s)"
proof (induction q arbitrary: s)
  case Nil
  show ?case by simp
next
  case (Cons x q)
  then obtain s' where s: "s = x # s'" and p: "prefix q s'" by (cases s) auto
  have "x \<notin> set old" using Cons.prems(2) by auto
  then have "\<not> prefix old (x # s')" using Cons.prems(3) by (cases old) auto
  then show ?case using Cons.IH [OF p] Cons.prems(2,3) s by simp
qed

lemma sublist_skip_disjoint:
  assumes "sublist p (xs @ ys)" "set p \<inter> set xs = {}" "p \<noteq> []"
  shows "sublist p ys"
proof -
  from assms(1) consider "sublist p xs" | "sublist p ys"
    | p1 p2 where "p = p1 @ p2" "suffix p1 xs" "prefix p2 ys"
    by (auto simp: sublist_append)
  then show ?thesis
  proof cases
    case 1
    then have "set p \<subseteq> set xs" by (rule set_mono_sublist)
    then show ?thesis using assms(2,3) by (cases p) auto
  next
    case 2
    then show ?thesis .
  next
    case 3
    have "set p1 \<subseteq> set xs" using 3(2) by (auto simp: suffix_def)
    then have "p1 = []" using assms(2) 3(1) by (cases p1) auto
    then show ?thesis using 3 by auto
  qed
qed

lemma sublist_replace_ne:
  "sublist p s \<Longrightarrow> set p \<inter> set old = {} \<Longrightarrow> p \<noteq> [] \<Longrightarrow> old \<noteq> [] \<Longrightarrow>
   sublist p (replace_ne old new s)"
proof (induction old new s rule: replace_ne.induct)
  case (1 old new)
  then show ?case by simp
next
  case (2 old new c cs)
  note ih = "2.IH" and pr = "2.prems"
  show ?case
  proof (cases "prefix old (c # cs)")
    case True
    then obtain rest where r: "c # cs = old @ rest" by (auto simp: prefix_def)
    then have d: "drop (length old - 1) cs = rest" using pr(4) by (cases old) auto
    have "sublist p rest"
      using pr(1) pr(2) pr(3) unfolding r by (rule sublist_skip_disjoint)
    then have "sublist p (replace_ne old new rest)"
      using ih(1) [OF True] pr(2,3,4) d by simp
    then have "sublist p (new @ replace_ne old new rest)"
      by (auto simp: sublist_append)
    then show ?thesis using True d by simp
  next
    case False
    from pr(1) consider (pre) "prefix p (c # cs)" | (sub) "sublist p cs"
      by (auto simp: sublist_Cons_right)
    then show ?thesis
    proof cases
      case pre
      then have "prefix p (replace_ne old new (c # cs))"
        using pr(2,4) by (rule prefix_replace_ne)
      then show ?thesis by (rule prefix_imp_sublist)
    next
      case sub
      then have "sublist p (replace_ne old new cs)"
        using ih(2) [OF False] pr(2,3,4) by simp
      then show ?thesis using False by (simp add: sublist_Cons_right)
    qed
  qed
qed


section \<open>The HTML value parser: the returned unit\<close>

lemma NUM_RE_chars: "NUM_RE s \<Longrightarrow> c \<in> set s \<Longrightarrow> isdecimal c \<or> c = 0x2E"
proof -
  assume n: "NUM_RE s" and c: "c \<in> set s"
  have s: "s = takeWhile isdecimal s @ dropWhile isdecimal s" by simp
  have "c \<in> set (takeWhile isdecimal s) \<or> c \<in> set (dropWhile isdecimal s)"
    using c by (metis s Un_iff set_append)
  then show ?thesis
  proof
    assume "c \<in> set (takeWhile isdecimal s)"
    then show ?thesis by (auto dest: set_takeWhileD)
  next
    assume d: "c \<in> set (dropWhile isdecimal s)"
    then show ?thesis
      using n by (cases "dropWhile isdecimal s") (auto simp: NUM_RE_def Let_def list_all_iff)
  qed
qed

lemma marker_chars:
  "list_all (\<lambda>c. \<not> isspace c) KOKUSAI_TANNI"
  "set KOKUSAI_TANNI \<inter> set GOKEI = {}"
  "is_g c \<Longrightarrow> \<not> isspace c \<and> c \<notin> set GOKEI \<and> \<not> isdecimal c \<and> c \<noteq> 0x2E"
  by (auto simp: KOKUSAI_TANNI_def GOKEI_def is_g_def FW_G_def isspace_def isdecimal_def
      digit_zeros_def)

lemma strip_units_and_note_plain:
  assumes "s1 = (if sublist GOKEI (norm val) then strip (str_replace GOKEI [] (norm val))
                 else norm val)"
    and "\<not> sublist KOKUSAI_TANNI s1" "\<not> list_ex is_g s1"
  shows "strip_units_and_note val =
         (norm s1, if NUM_RE (norm s1) then u ''g'' else [],
          if sublist GOKEI (norm val) then GOKEI else [])"
proof (cases "sublist GOKEI (norm val)")
  case True
  then show ?thesis using assms by (simp add: strip_units_and_note_def Let_def)
next
  case False
  then show ?thesis using assms by (simp add: strip_units_and_note_def Let_def)
qed

lemma strip_units_and_note_unit_empty:
  assumes "s1 = (if sublist GOKEI (norm val) then strip (str_replace GOKEI [] (norm val))
                 else norm val)"
    and "fst (snd (strip_units_and_note val)) = []"
  shows "\<not> sublist KOKUSAI_TANNI s1 \<and> \<not> list_ex is_g s1"
proof (cases "sublist GOKEI (norm val)")
  case True
  then show ?thesis using assms
    by (auto simp: strip_units_and_note_def Let_def split: if_splits)
next
  case False
  then show ?thesis using assms
    by (auto simp: strip_units_and_note_def Let_def split: if_splits)
qed

text \<open>
  C10: when the text of a cell value, after the aggregate-total marker is removed and the
  whitespace normalized, is a pure decimal number (digits with an optional fraction), the
  value parser returns that number with the unit g; such a value holds no unit marker. When
  the returned unit is empty, the cleaned value is not such a number, and neither the
  international-unit marker nor one of the letters g and U+FF47 occurs in the value.
\<close>

theorem C10_html_unit_of_plain_number:
  "(let s = norm val;
        s1 = (if sublist GOKEI s then strip (str_replace GOKEI [] s) else s);
        note = (if sublist GOKEI s then GOKEI else [])
    in NUM_RE (norm s1) \<longrightarrow> strip_units_and_note val = (norm s1, u ''g'', note)) \<and>
   (fst (snd (strip_units_and_note val)) = [] \<longrightarrow>
      \<not> NUM_RE (fst (strip_units_and_note val)) \<and>
      \<not> sublist KOKUSAI_TANNI val \<and> \<not> list_ex is_g val)"
proof -
  define s1 where "s1 = (if sublist GOKEI (norm val) then strip (str_replace GOKEI [] (norm val))
                         else norm val)"
  have keep_iu: "sublist KOKUSAI_TANNI s1" if "sublist KOKUSAI_TANNI val"
  proof -
    have ne: "KOKUSAI_TANNI \<noteq> []" by simp
    have "sublist KOKUSAI_TANNI (norm val)"
      using that ne marker_chars(1) by (rule sublist_norm)
    moreover have "sublist KOKUSAI_TANNI (strip (str_replace GOKEI [] (norm val)))"
      if "sublist KOKUSAI_TANNI (norm val)"
    proof -
      have "sublist KOKUSAI_TANNI (replace_ne GOKEI [] (norm val))"
        using that marker_chars(2) ne by (rule sublist_replace_ne) simp
      then show ?thesis
        using ne marker_chars(1) by (simp add: str_replace_def sublist_strip)
    qed
    ultimately show ?thesis by (simp add: s1_def)
  qed
  have keep_g: "c \<in> set s1" if "c \<in> set val" "is_g c" for c
  proof -
    have c: "\<not> isspace c" "c \<notin> set GOKEI" using marker_chars(3) [OF that(2)] by simp_all
    have "c \<in> set (norm val)" using that(1) c(1) by (rule norm_mem)
    moreover have "c \<in> set (strip (str_replace GOKEI [] (norm val)))" if "c \<in> set (norm val)"
      using that c by (simp add: str_replace_def strip_mem replace_ne_mem)
    ultimately show ?thesis by (simp add: s1_def)
  qed
  have num: "strip_units_and_note val = (norm s1, u ''g'', if sublist GOKEI (norm val) then GOKEI else [])"
    if n: "NUM_RE (norm s1)"
  proof -
    have "\<not> sublist KOKUSAI_TANNI s1"
    proof
      assume "sublist KOKUSAI_TANNI s1"
      then have "0x56FD \<in> set s1" using set_mono_sublist by (fastforce simp: KOKUSAI_TANNI_def)
      moreover have "\<not> isspace 0x56FD" by (simp add: isspace_def)
      ultimately have "0x56FD \<in> set (norm s1)" by (rule norm_mem)
      then show False using NUM_RE_chars [OF n] not_decimal_markers(3) by fastforce
    qed
    moreover have "\<not> list_ex is_g s1"
    proof
      assume "list_ex is_g s1"
      then obtain c where c: "c \<in> set s1" "is_g c" by (auto simp: list_ex_iff)
      then have "c \<in> set (norm s1)" using marker_chars(3) by (intro norm_mem) simp_all
      then show False using NUM_RE_chars [OF n] marker_chars(3) [OF c(2)] by blast
    qed
    ultimately show ?thesis
      using strip_units_and_note_plain [OF s1_def] n by simp
  qed
  have empty: "\<not> NUM_RE (fst (strip_units_and_note val)) \<and>
      \<not> sublist KOKUSAI_TANNI val \<and> \<not> list_ex is_g val"
    if e: "fst (snd (strip_units_and_note val)) = []"
  proof -
    from strip_units_and_note_unit_empty [OF s1_def e]
    have a: "\<not> sublist KOKUSAI_TANNI s1" and b: "\<not> list_ex is_g s1" by simp_all
    note p = strip_units_and_note_plain [OF s1_def a b]
    have "\<not> NUM_RE (norm s1)" using e p by (auto split: if_splits)
    then have "\<not> NUM_RE (fst (strip_units_and_note val))" using p by simp
    moreover have "\<not> sublist KOKUSAI_TANNI val" using a keep_iu by blast
    moreover have "\<not> list_ex is_g val" using b keep_g by (auto simp: list_ex_iff)
    ultimately show ?thesis by simp
  qed
  show ?thesis
    using num empty by (simp add: Let_def s1_def)
qed

theorem C10_html_unit_of_plain_number_witness:
  "NUM_RE (norm (norm (u '' 12.5 ''))) \<and>
   strip_units_and_note (u '' 12.5 '') = (u ''12.5'', u ''g'', []) \<and>
   fst (snd (strip_units_and_note (u ''abc''))) = [] \<and>
   \<not> NUM_RE (fst (strip_units_and_note (u ''abc''))) \<and>
   \<not> sublist KOKUSAI_TANNI (u ''abc'') \<and> \<not> list_ex is_g (u ''abc'')"
proof -
  have n: "NUM_RE (norm (norm (u '' 12.5 '')))" by code_simp
  have g: "\<not> sublist GOKEI (norm (u '' 12.5 ''))" by code_simp
  have v: "norm (norm (u '' 12.5 '')) = u ''12.5''" by code_simp
  have e: "fst (snd (strip_units_and_note (u ''abc''))) = []" by code_simp
  from C10_html_unit_of_plain_number [of "u '' 12.5 ''"] n g v
  have "strip_units_and_note (u '' 12.5 '') = (u ''12.5'', u ''g'', [])"
    by (simp add: Let_def)
  moreover from C10_html_unit_of_plain_number [of "u ''abc''"] e
  have "\<not> NUM_RE (fst (strip_units_and_note (u ''abc''))) \<and>
   \<not> sublist KOKUSAI_TANNI (u ''abc'') \<and> \<not> list_ex is_g (u ''abc'')"
    by blast
  ultimately show ?thesis using n e by blast
qed

end
